theory Spec2Isabelle
  imports
    Main
    "HOL-Library.Finite_Map"
    "HOL-Library.Sublist"
    "HOL-Library.Char_ord"
    "HOL-Library.List_Lexorder"
begin

section \<open>Python values\<close>

text \<open>
  The two entry points, \<^verbatim>\<open>app.py\<close> (the web form) and \<^verbatim>\<open>main.py\<close> (the command line), share
  \<^verbatim>\<open>fetch_data\<close>, \<^verbatim>\<open>get_column_type\<close>, \<^verbatim>\<open>fetch_sharepoint_lists\<close>, \<^verbatim>\<open>fetch_columns\<close> and
  \<^verbatim>\<open>generate_uml_graph\<close>; they differ in the constant \<^verbatim>\<open>LISTS_TO_IGNORE\<close> and in how the edge
  loop writes its search. The functions work on what \<^verbatim>\<open>response.json()\<close> returns, so the
  model starts from Python's JSON values.

  \<^item> \<open>atom\<close> holds the hashable values (\<^verbatim>\<open>None\<close>, \<^verbatim>\<open>bool\<close>, \<^verbatim>\<open>int\<close>, \<^verbatim>\<open>str\<close>): the only ones
    that can be the key of a \<^verbatim>\<open>dict\<close>. Numbers are integers; floats are not modelled.
  \<^item> A \<^verbatim>\<open>str\<close> is a \<open>string\<close>, the bytes of its UTF-8 encoding. Equality, concatenation,
    emptiness, the search for an ASCII substring and the match of an ASCII pattern agree
    on bytes and on code points.
  \<^item> A \<^verbatim>\<open>dict\<close> that came from JSON is a finite map: it has one value per key and compares
    equal whatever the order of its keys. The dictionary \<^verbatim>\<open>lists_dict\<close>, which the program
    builds and iterates in insertion order, is an association list (see \<open>dict_set\<close>).
\<close>

datatype atom = ANone | ABool bool | AInt int | AStr string

datatype json = Atom atom | JArr "json list" | JObj "(string, json) fmap"

abbreviation JNone :: json where "JNone \<equiv> Atom ANone"
abbreviation JBool :: "bool \<Rightarrow> json" where "JBool b \<equiv> Atom (ABool b)"
abbreviation JInt :: "int \<Rightarrow> json" where "JInt n \<equiv> Atom (AInt n)"
abbreviation JStr :: "string \<Rightarrow> json" where "JStr s \<equiv> Atom (AStr s)"

datatype error = TypeError | AttributeError | KeyError

text \<open>
  Python's \<^verbatim>\<open>==\<close>: structural, except that \<^verbatim>\<open>True == 1\<close> and \<^verbatim>\<open>False == 0\<close>. Both sides are
  brought to a form where the booleans are integers.
\<close>

fun norm_atom :: "atom \<Rightarrow> atom" where
  "norm_atom (ABool b) = AInt (if b then 1 else 0)"
| "norm_atom a = a"

primrec norm :: "json \<Rightarrow> json" where
  "norm (Atom a) = Atom (norm_atom a)"
| "norm (JArr xs) = JArr (map norm xs)"
| "norm (JObj m) = JObj (fmmap norm m)"

definition atom_eq :: "atom \<Rightarrow> atom \<Rightarrow> bool" where
  "atom_eq a b = (norm_atom a = norm_atom b)"

definition py_eq :: "json \<Rightarrow> json \<Rightarrow> bool" where
  "py_eq x y = (norm x = norm y)"

text \<open>Truth value testing (\<^verbatim>\<open>if x:\<close>, \<^verbatim>\<open>not x\<close>).\<close>

fun truthy_atom :: "atom \<Rightarrow> bool" where
  "truthy_atom ANone = False"
| "truthy_atom (ABool b) = b"
| "truthy_atom (AInt n) = (n \<noteq> 0)"
| "truthy_atom (AStr s) = (s \<noteq> [])"

fun truthy :: "json \<Rightarrow> bool" where
  "truthy (Atom a) = truthy_atom a"
| "truthy (JArr xs) = (xs \<noteq> [])"
| "truthy (JObj m) = (m \<noteq> fmempty)"

text \<open>\<^verbatim>\<open>key in x\<close> for a \<^verbatim>\<open>str\<close> key: key membership in a dict, element membership in a list,
  substring search in a str, \<^verbatim>\<open>TypeError\<close> otherwise.\<close>

fun py_in :: "string \<Rightarrow> json \<Rightarrow> error + bool" where
  "py_in key (JObj m) = Inr (key |\<in>| fmdom m)"
| "py_in key (JArr xs) = Inr (JStr key \<in> set xs)"
| "py_in key (Atom (AStr s)) = Inr (sublist key s)"
| "py_in key (Atom a) = Inl TypeError"

text \<open>\<^verbatim>\<open>x[key]\<close> for a \<^verbatim>\<open>str\<close> key.\<close>

fun py_getitem :: "json \<Rightarrow> string \<Rightarrow> error + json" where
  "py_getitem (JObj m) key = (case fmlookup m key of None \<Rightarrow> Inl KeyError | Some v \<Rightarrow> Inr v)"
| "py_getitem x key = Inl TypeError"

text \<open>\<^verbatim>\<open>x.get(key, default)\<close>: only a dict has the method.\<close>

fun py_get :: "json \<Rightarrow> string \<Rightarrow> json \<Rightarrow> error + json" where
  "py_get (JObj m) key dflt = Inr (case fmlookup m key of None \<Rightarrow> dflt | Some v \<Rightarrow> v)"
| "py_get x key dflt = Inl AttributeError"

text \<open>
  \<^verbatim>\<open>for item in x\<close>: the elements of a list, the keys of a dict, the characters of a str.
  The keys of a finite map are taken in sorted order and a str gives one item per byte;
  in both cases every item is a \<^verbatim>\<open>str\<close>, and the two loops that iterate a payload treat
  every \<^verbatim>\<open>str\<close> item alike (a warning in one, \<^verbatim>\<open>AttributeError\<close> in the other).
\<close>

fun py_iter :: "json \<Rightarrow> error + json list" where
  "py_iter (JArr xs) = Inr xs"
| "py_iter (JObj m) = Inr (map JStr (sorted_list_of_fset (fmdom m)))"
| "py_iter (Atom (AStr s)) = Inr (map (\<lambda>c. JStr [c]) s)"
| "py_iter (Atom a) = Inl TypeError"

text \<open>\<^verbatim>\<open>str(x)\<close>, as an f-string formats a dictionary key.\<close>

fun digits :: "nat \<Rightarrow> string" where
  "digits n = (if n < 10 then [char_of (48 + n)] else digits (n div 10) @ [char_of (48 + n mod 10)])"

declare digits.simps [simp del]

fun py_str :: "atom \<Rightarrow> string" where
  "py_str ANone = ''None''"
| "py_str (ABool b) = (if b then ''True'' else ''False'')"
| "py_str (AInt n) = (if n < 0 then ''-'' @ digits (nat (- n)) else digits (nat n))"
| "py_str (AStr s) = s"

text \<open>
  \<^verbatim>\<open>d[key] = value\<close> on an insertion-ordered dict: an equal key keeps its place (and the key
  object first inserted) and takes the new value; a new key goes to the end.
\<close>

type_synonym dict = "(atom \<times> json) list"

fun dict_set :: "dict \<Rightarrow> atom \<Rightarrow> json \<Rightarrow> dict" where
  "dict_set [] key v = [(key, v)]"
| "dict_set ((k, w) # d) key v =
     (if atom_eq k key then (k, v) # d else (k, w) # dict_set d key v)"

text \<open>\<^verbatim>\<open>d.get(key)\<close> on such a dict; used to state what the dictionary holds.\<close>

fun dict_get :: "dict \<Rightarrow> atom \<Rightarrow> json option" where
  "dict_get [] key = None"
| "dict_get ((k, w) # d) key = (if atom_eq k key then Some w else dict_get d key)"

section \<open>Regular expressions (\<^verbatim>\<open>re.match\<close>)\<close>

text \<open>
  The fragment of \<^verbatim>\<open>re\<close> the pattern needs. \<open>Dot\<close> is \<^verbatim>\<open>.\<close>, which matches any character but
  the newline. \<^verbatim>\<open>re.match\<close> succeeds when some prefix of the string matches the pattern.
\<close>

datatype regex = Zero | One | Chr char | Dot | Alt regex regex | Seq regex regex | Star regex

fun nullable :: "regex \<Rightarrow> bool" where
  "nullable Zero = False"
| "nullable One = True"
| "nullable (Chr c) = False"
| "nullable Dot = False"
| "nullable (Alt r s) = (nullable r \<or> nullable s)"
| "nullable (Seq r s) = (nullable r \<and> nullable s)"
| "nullable (Star r) = True"

fun deriv :: "char \<Rightarrow> regex \<Rightarrow> regex" where
  "deriv c Zero = Zero"
| "deriv c One = Zero"
| "deriv c (Chr d) = (if c = d then One else Zero)"
| "deriv c Dot = (if c = CHR 0x0A then Zero else One)"
| "deriv c (Alt r s) = Alt (deriv c r) (deriv c s)"
| "deriv c (Seq r s) =
     (if nullable r then Alt (Seq (deriv c r) s) (deriv c s) else Seq (deriv c r) s)"
| "deriv c (Star r) = Seq (deriv c r) (Star r)"

fun re_match :: "regex \<Rightarrow> string \<Rightarrow> bool" where
  "re_match r [] = nullable r"
| "re_match r (c # cs) = (nullable r \<or> re_match (deriv c r) cs)"

fun literal :: "string \<Rightarrow> regex" where
  "literal [] = One"
| "literal (c # cs) = Seq (Chr c) (literal cs)"

text \<open>
  What a pattern means, to check the matcher against: the set of strings a pattern
  matches in full. \<open>re_match_lang\<close> below proves that \<open>re_match\<close> holds exactly when a prefix
  of the string is in that set.
\<close>

inductive_set star :: "string set \<Rightarrow> string set" for A :: "string set" where
  star_empty: "[] \<in> star A"
| star_step: "u \<in> A \<Longrightarrow> v \<in> star A \<Longrightarrow> u @ v \<in> star A"

fun lang :: "regex \<Rightarrow> string set" where
  "lang Zero = {}"
| "lang One = {[]}"
| "lang (Chr c) = {[c]}"
| "lang Dot = {[c] |c. c \<noteq> CHR 0x0A}"
| "lang (Alt r s) = lang r \<union> lang s"
| "lang (Seq r s) = {u @ v |u v. u \<in> lang r \<and> v \<in> lang s}"
| "lang (Star r) = star (lang r)"

section \<open>Constants\<close>

text \<open>\<^verbatim>\<open>LISTS_TO_IGNORE\<close> of \<^verbatim>\<open>app.py\<close> and of \<^verbatim>\<open>main.py\<close> (which has one name more).\<close>

definition LISTS_TO_IGNORE_app :: "string list" where
  "LISTS_TO_IGNORE_app =
     [''Documents'', ''Liens de partage'',
      ''Extensions de mod'' @ [CHR 0xC3, CHR 0xA8] @ ''le web'', ''User'']"

definition LISTS_TO_IGNORE_main :: "string list" where
  "LISTS_TO_IGNORE_main =
     [''Documents'', ''Liens de partage'',
      ''Extensions de mod'' @ [CHR 0xC3, CHR 0xA8] @ ''le web'', ''User'',
      ''Web Template Extensions'']"

definition COLUMNS_TO_IGNORE :: "string list" where
  "COLUMNS_TO_IGNORE =
     [''_ColorTag'', ''ComplianceAssetId'', ''_UIVersionString'', ''Attachments'',
      ''Edit'', ''LinkTitleNoMenu'', ''LinkTitle'', ''DocIcon'', ''ItemChildCount'',
      ''FolderChildCount'', ''_ComplianceFlags'', ''_ComplianceTag'',
      ''_ComplianceTagWrittenTime'', ''_ComplianceTagUserId'', ''_IsRecord'',
      ''AppAuthor'', ''AppEditor'', ''ID'', ''ContentType'']"

text \<open>\<^verbatim>\<open>".*x003a.*"\<close>\<close>

definition COLUMN_PATTERN_TO_IGNORE :: regex where
  "COLUMN_PATTERN_TO_IGNORE = Seq (Star Dot) (Seq (literal ''x003a'') (Star Dot))"

section \<open>Logging and the Metadata Source\<close>

text \<open>
  One constructor per logging call of the source, with the value its message formats.
  A function that logs returns the records it wrote, in order, beside its result.
\<close>

datatype log_record =
    Request_failed
  | Failed_to_fetch_lists
  | Unexpected_item json
  | Failed_to_fetch_columns json
  | Generating_table atom
  | No_lists_found

type_synonym log = "log_record list"

text \<open>
  \<^verbatim>\<open>fetch_data\<close>. Its argument is the outcome of
  \<^verbatim>\<open>requests.get(url, headers=headers)\<close>, \<^verbatim>\<open>raise_for_status()\<close> and \<^verbatim>\<open>response.json()\<close>:
  \<open>None\<close> when a \<^verbatim>\<open>RequestException\<close> was raised, the decoded body otherwise.
\<close>

definition fetch_data :: "json option \<Rightarrow> log \<times> json option" where
  "fetch_data response =
     (case response of
        None \<Rightarrow> ([Request_failed], None)
      | Some body \<Rightarrow> ([], Some body))"

section \<open>Field Classifier\<close>

record column_type =
  type :: string
  details :: json

definition type_mappings :: "(string \<times> string) list" where
  "type_mappings =
     [(''text'', ''text''), (''lookup'', ''lookup''), (''dateTime'', ''dateTime''),
      (''number'', ''number''), (''choice'', ''choice''), (''boolean'', ''boolean''),
      (''person'', ''person''), (''calculated'', ''calculated'')]"

text \<open>The loop over \<^verbatim>\<open>type_mappings.items()\<close>, in insertion order.\<close>

fun type_loop :: "(string \<times> string) list \<Rightarrow> json \<Rightarrow> error + column_type" where
  "type_loop [] column = Inr \<lparr>type = ''unknown'', details = JObj fmempty\<rparr>"
| "type_loop ((key, val) # rest) column =
     (case py_in key column of
        Inl e \<Rightarrow> Inl e
      | Inr True \<Rightarrow>
          (case py_getitem column key of
             Inl e \<Rightarrow> Inl e
           | Inr d \<Rightarrow> Inr \<lparr>type = val, details = d\<rparr>)
      | Inr False \<Rightarrow> type_loop rest column)"

definition get_column_type :: "json \<Rightarrow> error + column_type" where
  "get_column_type column = type_loop type_mappings column"

section \<open>Schema Fetcher\<close>

text \<open>
  \<^verbatim>\<open>isinstance(item, dict) and 'displayName' in item and 'id' in item\<close>
\<close>

fun list_item_ok :: "json \<Rightarrow> bool" where
  "list_item_ok (JObj m) = (''displayName'' |\<in>| fmdom m \<and> ''id'' |\<in>| fmdom m)"
| "list_item_ok item = False"

text \<open>\<^verbatim>\<open>x in names\<close> for a list of \<^verbatim>\<open>str\<close>: only an equal \<^verbatim>\<open>str\<close> is in it.\<close>

fun in_names :: "json \<Rightarrow> string list \<Rightarrow> bool" where
  "in_names (Atom (AStr s)) names = (s \<in> set names)"
| "in_names x names = False"

text \<open>
  The loop of \<^verbatim>\<open>fetch_sharepoint_lists\<close> over \<^verbatim>\<open>lists_data['value']\<close>, with \<^verbatim>\<open>lists_dict\<close> and the
  log as its state. Storing under a key that is a list or a dict raises \<^verbatim>\<open>TypeError\<close>
  (unhashable).
\<close>

fun lists_loop :: "string list \<Rightarrow> json list \<Rightarrow> dict \<Rightarrow> log \<Rightarrow> log \<times> (error + dict)" where
  "lists_loop ignore [] lists_dict lg = (lg, Inr lists_dict)"
| "lists_loop ignore (item # items) lists_dict lg =
     (if list_item_ok item then
        (case py_getitem item ''displayName'' of
           Inl e \<Rightarrow> (lg, Inl e)
         | Inr displayName \<Rightarrow>
             if \<not> in_names displayName ignore then
               (case py_getitem item ''id'' of
                  Inl e \<Rightarrow> (lg, Inl e)
                | Inr list_id \<Rightarrow>
                    (case displayName of
                       Atom key \<Rightarrow> lists_loop ignore items (dict_set lists_dict key list_id) lg
                     | _ \<Rightarrow> (lg, Inl TypeError)))
             else lists_loop ignore items lists_dict lg)
      else lists_loop ignore items lists_dict (lg @ [Unexpected_item item]))"

text \<open>
  \<^verbatim>\<open>fetch_sharepoint_lists\<close>, with the ignore list of the entry point as a parameter and the
  outcome of the collection-listing request as \<open>response\<close>. The source returns
  \<^verbatim>\<open>(lists_dict, headers, endpoint)\<close>; the last two are formatted from the token and the
  site id alone and are left out.
\<close>

definition fetch_sharepoint_lists :: "string list \<Rightarrow> json option \<Rightarrow> log \<times> (error + dict)" where
  "fetch_sharepoint_lists ignore response =
     (case fetch_data response of (lg, lists_data) \<Rightarrow>
        (case lists_data of
           None \<Rightarrow> (lg @ [Failed_to_fetch_lists], Inr [])
         | Some body \<Rightarrow>
             if \<not> truthy body then (lg @ [Failed_to_fetch_lists], Inr [])
             else
               (case py_in ''value'' body of
                  Inl e \<Rightarrow> (lg, Inl e)
                | Inr False \<Rightarrow> (lg @ [Failed_to_fetch_lists], Inr [])
                | Inr True \<Rightarrow>
                    (case py_getitem body ''value'' of
                       Inl e \<Rightarrow> (lg, Inl e)
                     | Inr v \<Rightarrow>
                         (case py_iter v of
                            Inl e \<Rightarrow> (lg, Inl e)
                          | Inr items \<Rightarrow> lists_loop ignore items [] lg)))))"

record column =
  name :: string
  ident :: json
  required :: json
  type_details :: column_type

text \<open>
  The loop of \<^verbatim>\<open>fetch_columns\<close> over \<^verbatim>\<open>columns_data['value']\<close>. \<^verbatim>\<open>col.get\<close> raises
  \<^verbatim>\<open>AttributeError\<close> when \<^verbatim>\<open>col\<close> is not a dict. A name that is not a \<^verbatim>\<open>str\<close> is not in
  \<^verbatim>\<open>COLUMNS_TO_IGNORE\<close>, so \<^verbatim>\<open>re.match\<close> is called on it and raises \<^verbatim>\<open>TypeError\<close>; the names
  that reach \<^verbatim>\<open>columns.append\<close> are strings. The field \<^verbatim>\<open>"id"\<close> of the appended dict is
  \<open>ident\<close> here.
\<close>

fun columns_loop :: "json list \<Rightarrow> column list \<Rightarrow> error + column list" where
  "columns_loop [] columns = Inr columns"
| "columns_loop (col # rest) columns =
     (case py_get col ''name'' (JStr []) of
        Inl e \<Rightarrow> Inl e
      | Inr (Atom (AStr nm)) \<Rightarrow>
          if nm \<notin> set COLUMNS_TO_IGNORE \<and> \<not> re_match COLUMN_PATTERN_TO_IGNORE nm then
            (case py_get col ''id'' JNone of
               Inl e \<Rightarrow> Inl e
             | Inr i \<Rightarrow>
                 (case py_get col ''required'' (JBool False) of
                    Inl e \<Rightarrow> Inl e
                  | Inr r \<Rightarrow>
                      (case get_column_type col of
                         Inl e \<Rightarrow> Inl e
                       | Inr t \<Rightarrow>
                           columns_loop rest
                             (columns @ [\<lparr>name = nm, ident = i, required = r, type_details = t\<rparr>]))))
          else columns_loop rest columns
      | Inr x \<Rightarrow> Inl TypeError)"

text \<open>
  \<^verbatim>\<open>fetch_columns\<close>. The Metadata Source is the function \<open>src\<close>: the outcome of the
  field-listing request for a list id (endpoint and headers are the same for every call
  of a run, and the URL is formatted from the list id). The source is a function: asked
  twice for one id during a run, it answers the same.
\<close>

type_synonym source = "json \<Rightarrow> json option"

definition fetch_columns :: "source \<Rightarrow> json \<Rightarrow> log \<times> (error + column list)" where
  "fetch_columns src list_id =
     (case fetch_data (src list_id) of (lg, columns_data) \<Rightarrow>
        (case columns_data of
           None \<Rightarrow> (lg @ [Failed_to_fetch_columns list_id], Inr [])
         | Some body \<Rightarrow>
             if \<not> truthy body then (lg @ [Failed_to_fetch_columns list_id], Inr [])
             else
               (case py_in ''value'' body of
                  Inl e \<Rightarrow> (lg, Inl e)
                | Inr False \<Rightarrow> (lg @ [Failed_to_fetch_columns list_id], Inr [])
                | Inr True \<Rightarrow>
                    (case py_getitem body ''value'' of
                       Inl e \<Rightarrow> (lg, Inl e)
                     | Inr v \<Rightarrow>
                         (case py_iter v of
                            Inl e \<Rightarrow> (lg, Inl e)
                          | Inr cols \<Rightarrow> (lg, columns_loop cols []))))))"

section \<open>Relationship Resolver and Graph Assembler\<close>

text \<open>
  The \<^verbatim>\<open>Digraph\<close> as the calls made on it: \<^verbatim>\<open>graph.node(name, label=label, shape="plaintext")\<close>
  adds \<open>(name, label)\<close> to \<open>nodes\<close>, \<^verbatim>\<open>graph.edge(source, target, label=label)\<close> adds
  \<open>(source, target, label)\<close> to \<open>edges\<close>. This is the GraphModel handed to the renderer
  (\<^verbatim>\<open>graph.pipe()\<close>); its constant attributes are left out. The library accepts a \<^verbatim>\<open>str\<close> as a
  name; the model records the call for any display name, so the runs it counts as
  returning a graph include the runs of the source that do.
\<close>

record graph =
  nodes :: "(atom \<times> string) list"
  edges :: "(atom \<times> atom \<times> string) list"

type_synonym relationship = "atom \<times> json \<times> string"

definition table_open :: "atom \<Rightarrow> string" where
  "table_open list_name =
     ''<<TABLE BORDER='0' CELLBORDER='1' CELLSPACING='0'>'' @ [CHR 0x0A] @
     ''<TR><TD COLSPAN='2'><B>'' @ py_str list_name @ ''</B></TD></TR>'' @ [CHR 0x0A]"

definition table_row :: "column \<Rightarrow> string" where
  "table_row c =
     ''<TR><TD>'' @ name c @ ''</TD><TD>'' @ type (type_details c) @ ''</TD></TR>'' @ [CHR 0x0A]"

definition table_close :: string where
  "table_close = ''</TABLE>>''"

text \<open>
  The inner loop of \<^verbatim>\<open>generate_uml_graph\<close> over the columns of one list, with \<^verbatim>\<open>label\<close> and
  \<^verbatim>\<open>relationships\<close> as its state. \<^verbatim>\<open>.get("listId")\<close> is called on the details of a lookup
  column and raises \<^verbatim>\<open>AttributeError\<close> when they are not a dict.
\<close>

fun rows_loop ::
  "atom \<Rightarrow> column list \<Rightarrow> string \<Rightarrow> relationship list \<Rightarrow> error + string \<times> relationship list"
where
  "rows_loop list_name [] label relationships = Inr (label, relationships)"
| "rows_loop list_name (c # rest) label relationships =
     (let column_name = name c;
          column_type = type (type_details c);
          label' = label @ table_row c
      in if column_type = ''lookup'' then
           (case py_get (details (type_details c)) ''listId'' JNone of
              Inl e \<Rightarrow> Inl e
            | Inr list_id_lookup \<Rightarrow>
                if truthy list_id_lookup then
                  rows_loop list_name rest label'
                    (relationships @ [(list_name, list_id_lookup, column_name)])
                else rows_loop list_name rest label' relationships)
         else rows_loop list_name rest label' relationships)"

text \<open>The outer loop over \<^verbatim>\<open>lists_dict.items()\<close>: one \<^verbatim>\<open>fetch_columns\<close> and one node per list.\<close>

fun tables_loop ::
  "source \<Rightarrow> dict \<Rightarrow> graph \<Rightarrow> relationship list \<Rightarrow> log
     \<Rightarrow> log \<times> (error + graph \<times> relationship list)"
where
  "tables_loop src [] g relationships lg = (lg, Inr (g, relationships))"
| "tables_loop src ((list_name, list_id) # rest) g relationships lg =
     (case fetch_columns src list_id of
        (lg1, Inl e) \<Rightarrow> (lg @ lg1, Inl e)
      | (lg1, Inr columns) \<Rightarrow>
          (case rows_loop list_name columns (table_open list_name) relationships of
             Inl e \<Rightarrow> (lg @ lg1 @ [Generating_table list_name], Inl e)
           | Inr (label, relationships') \<Rightarrow>
               tables_loop src rest
                 (g\<lparr>nodes := nodes g @ [(list_name, label @ table_close)]\<rparr>)
                 relationships' (lg @ lg1 @ [Generating_table list_name])))"

text \<open>
  The search for the target table: the \<^verbatim>\<open>for\<close> with \<^verbatim>\<open>break\<close> of \<^verbatim>\<open>app.py\<close>, the
  \<^verbatim>\<open>next((name for name, id_ in lists_dict.items() if id_ == target_list_id), None)\<close> of
  \<^verbatim>\<open>main.py\<close>. \<open>None\<close> is the \<^verbatim>\<open>None\<close> both start from.
\<close>

fun find_target :: "dict \<Rightarrow> json \<Rightarrow> atom option" where
  "find_target [] target_list_id = None"
| "find_target ((table_name, table_id) # rest) target_list_id =
     (if py_eq table_id target_list_id then Some table_name
      else find_target rest target_list_id)"

text \<open>The loop over \<^verbatim>\<open>relationships\<close>; \<^verbatim>\<open>if target_table:\<close> is a truth value test.\<close>

fun edges_loop :: "dict \<Rightarrow> relationship list \<Rightarrow> graph \<Rightarrow> graph" where
  "edges_loop lists_dict [] g = g"
| "edges_loop lists_dict ((source_table, target_list_id, column_name) # rest) g =
     (case find_target lists_dict target_list_id of
        None \<Rightarrow> edges_loop lists_dict rest g
      | Some target_table \<Rightarrow>
          if truthy_atom target_table then
            edges_loop lists_dict rest
              (g\<lparr>edges := edges g @ [(source_table, target_table, column_name)]\<rparr>)
          else edges_loop lists_dict rest g)"

definition generate_uml_graph :: "source \<Rightarrow> dict \<Rightarrow> log \<times> (error + graph)" where
  "generate_uml_graph src lists_dict =
     (case tables_loop src lists_dict \<lparr>nodes = [], edges = []\<rparr> [] [] of
        (lg, Inl e) \<Rightarrow> (lg, Inl e)
      | (lg, Inr (g, relationships)) \<Rightarrow> (lg, Inr (edges_loop lists_dict relationships g)))"

text \<open>
  \<^verbatim>\<open>main\<close> of \<^verbatim>\<open>main.py\<close>; with the ignore list of \<^verbatim>\<open>app.py\<close>, the same steps as its routes
  \<^verbatim>\<open>index\<close> and \<^verbatim>\<open>view_results\<close>. No graph is built from an empty \<^verbatim>\<open>lists_dict\<close>.
\<close>

definition main :: "string list \<Rightarrow> json option \<Rightarrow> source \<Rightarrow> log \<times> (error + graph option)" where
  "main ignore response src =
     (case fetch_sharepoint_lists ignore response of
        (lg, Inl e) \<Rightarrow> (lg, Inl e)
      | (lg, Inr lists_dict) \<Rightarrow>
          if lists_dict = [] then (lg @ [No_lists_found], Inr None)
          else
            (case generate_uml_graph src lists_dict of
               (lg2, Inl e) \<Rightarrow> (lg @ lg2, Inl e)
             | (lg2, Inr g) \<Rightarrow> (lg @ lg2, Inr (Some g))))"

section \<open>What a run builds, stated on the fetched columns\<close>

text \<open>
  The next definitions are not in the source. They say, in the words of the specification,
  what the loops of \<^verbatim>\<open>generate_uml_graph\<close> compute; the lemmas below prove that the loops
  compute exactly that.

  A Relationship is produced only from a field classified as \<^verbatim>\<open>lookup\<close> whose details hold
  a target id (\<^verbatim>\<open>listId\<close>) that passes the truth value test; \<open>lookup_target\<close> is that id.
\<close>

definition lookup_target :: "column \<Rightarrow> json option" where
  "lookup_target c =
     (if type (type_details c) = ''lookup'' then
        (case details (type_details c) of
           JObj m \<Rightarrow>
             (case fmlookup m ''listId'' of
                Some t \<Rightarrow> if truthy t then Some t else None
              | None \<Rightarrow> None)
         | _ \<Rightarrow> None)
      else None)"

definition relationships_of :: "atom \<Rightarrow> column list \<Rightarrow> relationship list" where
  "relationships_of list_name columns =
     List.map_filter (\<lambda>c. map_option (\<lambda>t. (list_name, t, name c)) (lookup_target c)) columns"

text \<open>The label of a node: the header row, one row per column, the closing tag.\<close>

definition table_label :: "atom \<Rightarrow> column list \<Rightarrow> string" where
  "table_label list_name columns =
     table_open list_name @ concat (map table_row columns) @ table_close"

text \<open>The columns \<^verbatim>\<open>fetch_columns\<close> returns for a list id (none when it raises).\<close>

definition columns_of :: "source \<Rightarrow> json \<Rightarrow> column list" where
  "columns_of src list_id =
     (case snd (fetch_columns src list_id) of Inr cs \<Rightarrow> cs | Inl e \<Rightarrow> [])"

definition all_relationships :: "source \<Rightarrow> dict \<Rightarrow> relationship list" where
  "all_relationships src lists_dict =
     concat (map (\<lambda>(list_name, list_id). relationships_of list_name (columns_of src list_id))
               lists_dict)"

text \<open>The edge one relationship gives in the edge loop, if any.\<close>

definition edge_of :: "dict \<Rightarrow> relationship \<Rightarrow> (atom \<times> atom \<times> string) option" where
  "edge_of lists_dict r =
     (case r of (source_table, target_list_id, column_name) \<Rightarrow>
        (case find_target lists_dict target_list_id of
           None \<Rightarrow> None
         | Some target_table \<Rightarrow>
             if truthy_atom target_table then Some (source_table, target_table, column_name)
             else None))"

text \<open>
  The field listing of a list gives no columns: the request raised, or the test
  \<^verbatim>\<open>not columns_data or 'value' not in columns_data\<close> of \<^verbatim>\<open>fetch_columns\<close> is true of the body
  (an empty body, or a dict, list or str in which \<^verbatim>\<open>'value'\<close> is not found).
\<close>

definition listing_unusable :: "json option \<Rightarrow> bool" where
  "listing_unusable columns_data =
     (case columns_data of
        None \<Rightarrow> True
      | Some body \<Rightarrow> \<not> truthy body \<or> py_in ''value'' body = Inr False)"

section \<open>Scenarios\<close>

text \<open>
  Concrete sources on which the theorems below are run: a site with the lists Orders,
  Customers and Products, where Orders has a text field and three lookup fields (one
  pointing at a list the site does not have), Customers has a field Title and two fields
  with names to ignore, and the field listing of Products fails;
  a site one of whose lists has the empty display name; a source whose field
  descriptors have no name; and a collection listing with two malformed items.
\<close>

definition scenario_dict :: dict where
  "scenario_dict =
     [(AStr ''Orders'', JStr ''L1''), (AStr ''Customers'', JStr ''L2''),
      (AStr ''Products'', JStr ''L3'')]"

definition lookup_field :: "string \<Rightarrow> string \<Rightarrow> json" where
  "lookup_field nm target =
     JObj (fmap_of_list
       [(''name'', JStr nm), (''lookup'', JObj (fmap_of_list [(''listId'', JStr target)]))])"

definition text_field :: "string \<Rightarrow> json" where
  "text_field nm = JObj (fmap_of_list [(''name'', JStr nm), (''text'', JObj fmempty)])"

definition payload :: "json list \<Rightarrow> json" where
  "payload items = JObj (fmap_of_list [(''value'', JArr items)])"

definition scenario_src :: source where
  "scenario_src list_id =
     (if list_id = JStr ''L1'' then
        Some (payload [text_field ''Title'', lookup_field ''CustomerRef'' ''L2'',
                       lookup_field ''ArchiveRef'' ''L9'', lookup_field ''ProductRef'' ''L3''])
      else if list_id = JStr ''L2'' then
        Some (payload [text_field ''Title'', text_field ''ID'', text_field ''Author_x003a_Name''])
      else None)"

definition empty_name_dict :: dict where
  "empty_name_dict = [(AStr [], JStr ''L0''), (AStr ''Orders'', JStr ''L1'')]"

definition empty_name_src :: source where
  "empty_name_src list_id =
     (if list_id = JStr ''L1'' then Some (payload [lookup_field ''Ref'' ''L0''])
      else Some (payload []))"

definition list_item :: "string \<Rightarrow> string \<Rightarrow> json" where
  "list_item nm i = JObj (fmap_of_list [(''displayName'', JStr nm), (''id'', JStr i)])"

definition nameless_src :: source where
  "nameless_src list_id = Some (payload [JObj (fmap_of_list [(''text'', JObj fmempty)])])"

definition broken_items :: "json list" where
  "broken_items =
     [list_item ''Tasks'' ''T1'', JStr ''junk'',
      JObj (fmap_of_list [(''displayName'', JStr ''Broken'')])]"






section \<open>Field Classifier: first match wins\<close>

lemma type_loop_first:
  "i < length ms \<Longrightarrow> fmlookup m (fst (ms ! i)) = Some d \<Longrightarrow>
   \<forall>j<i. fmlookup m (fst (ms ! j)) = None \<Longrightarrow>
   type_loop ms (JObj m) = Inr \<lparr>type = snd (ms ! i), details = d\<rparr>"
proof (induction ms arbitrary: i)
  case Nil
  then show ?case by simp
next
  case (Cons kv ms)
  obtain k v where kv: "kv = (k, v)" by (cases kv)
  show ?case
  proof (cases i)
    case 0
    with Cons.prems kv show ?thesis by (simp add: fmlookup_dom_iff)
  next
    case (Suc i')
    from Cons.prems(3) Suc have "fmlookup m k = None" using kv by auto
    moreover have "type_loop ms (JObj m) = Inr \<lparr>type = snd (ms ! i'), details = d\<rparr>"
      using Cons.prems Suc by (intro Cons.IH) auto
    ultimately show ?thesis using kv Suc by (simp add: fmdom_notI)
  qed
qed

lemma type_loop_none:
  "\<forall>k\<in>set (map fst ms). fmlookup m k = None \<Longrightarrow>
   type_loop ms (JObj m) = Inr \<lparr>type = ''unknown'', details = JObj fmempty\<rparr>"
  by (induction ms) (auto simp: fmdom_notI)

lemma type_loop_total: "\<exists>t. type_loop ms (JObj m) = Inr t"
proof (induction ms)
  case Nil
  show ?case by simp
next
  case (Cons kv ms)
  obtain k v where kv: "kv = (k, v)" by (cases kv)
  show ?case
  proof (cases "fmlookup m k")
    case None
    then show ?thesis using Cons.IH kv by (simp add: fmdom_notI)
  next
    case (Some d)
    then show ?thesis using kv by (simp add: fmlookup_dom_iff)
  qed
qed

lemma get_column_type_total: "\<exists>t. get_column_type (JObj m) = Inr t"
  unfolding get_column_type_def by (rule type_loop_total)

text \<open>
  C1. A field descriptor is a dict. Let \<open>ks\<close> be the classifier keys in their fixed order.
  If the descriptor has the key at position \<open>i\<close> and none of the keys before it, then
  \<open>get_column_type\<close> returns the tag of that key with the descriptor's value at that key
  as details, whatever later classifier keys the descriptor also has.
\<close>

theorem get_column_type_first_match:
  assumes "ks = [''text'', ''lookup'', ''dateTime'', ''number'', ''choice'', ''boolean'',
                 ''person'', ''calculated'']"
    and "i < length ks"
    and "fmlookup column (ks ! i) = Some d"
    and "\<forall>j<i. fmlookup column (ks ! j) = None"
  shows "get_column_type (JObj column) = Inr \<lparr>type = ks ! i, details = d\<rparr>"
proof -
  have fst: "map fst type_mappings = ks" and snd: "map snd type_mappings = ks"
    using assms(1) by (simp_all add: type_mappings_def)
  have len: "length type_mappings = length ks" using fst by (metis length_map)
  have a: "\<And>j. j < length ks \<Longrightarrow> fst (type_mappings ! j) = ks ! j"
    using fst len by (metis nth_map)
  have b: "\<And>j. j < length ks \<Longrightarrow> snd (type_mappings ! j) = ks ! j"
    using snd len by (metis nth_map)
  have "type_loop type_mappings (JObj column) =
          Inr \<lparr>type = snd (type_mappings ! i), details = d\<rparr>"
    using assms(2-4) len by (intro type_loop_first) (simp_all add: a)
  then show ?thesis using assms(2) by (simp add: get_column_type_def b)
qed

text \<open>A descriptor with the keys \<^verbatim>\<open>choice\<close> and \<^verbatim>\<open>lookup\<close> is a lookup.\<close>

theorem get_column_type_first_match_witness:
  "fmlookup (fmap_of_list
       [(''choice'', JObj fmempty),
        (''lookup'', JObj (fmap_of_list [(''listId'', JStr ''L1'')])),
        (''name'', JStr ''Customer'')]) ''text'' = None \<and>
   fmlookup (fmap_of_list
       [(''choice'', JObj fmempty),
        (''lookup'', JObj (fmap_of_list [(''listId'', JStr ''L1'')])),
        (''name'', JStr ''Customer'')]) ''choice'' = Some (JObj fmempty) \<and>
   get_column_type (JObj (fmap_of_list
       [(''choice'', JObj fmempty),
        (''lookup'', JObj (fmap_of_list [(''listId'', JStr ''L1'')])),
        (''name'', JStr ''Customer'')]))
   = Inr \<lparr>type = ''lookup'', details = JObj (fmap_of_list [(''listId'', JStr ''L1'')])\<rparr>"
  using get_column_type_first_match [of
      "[''text'', ''lookup'', ''dateTime'', ''number'', ''choice'', ''boolean'',
        ''person'', ''calculated'']" 1
      "fmap_of_list
       [(''choice'', JObj fmempty),
        (''lookup'', JObj (fmap_of_list [(''listId'', JStr ''L1'')])),
        (''name'', JStr ''Customer'')]"
      "JObj (fmap_of_list [(''listId'', JStr ''L1'')])"]
  by simp

text \<open>
  C9. On a field descriptor (a dict) \<open>get_column_type\<close> always returns a classification,
  never an error; when the descriptor has none of the eight classifier keys the
  classification is \<^verbatim>\<open>unknown\<close> with the empty dict as details.
\<close>

theorem get_column_type_unknown:
  "(\<exists>t. get_column_type (JObj column) = Inr t) \<and>
   ((\<forall>k\<in>set [''text'', ''lookup'', ''dateTime'', ''number'', ''choice'', ''boolean'',
               ''person'', ''calculated'']. fmlookup column k = None) \<longrightarrow>
    get_column_type (JObj column) = Inr \<lparr>type = ''unknown'', details = JObj fmempty\<rparr>)"
proof
  show "\<exists>t. get_column_type (JObj column) = Inr t"
    by (rule get_column_type_total)
next
  show "(\<forall>k\<in>set [''text'', ''lookup'', ''dateTime'', ''number'', ''choice'', ''boolean'',
               ''person'', ''calculated'']. fmlookup column k = None) \<longrightarrow>
    get_column_type (JObj column) = Inr \<lparr>type = ''unknown'', details = JObj fmempty\<rparr>"
    unfolding get_column_type_def
    by (intro impI type_loop_none) (simp add: type_mappings_def)
qed

theorem get_column_type_unknown_witness:
  "get_column_type (JObj (fmap_of_list [(''name'', JStr ''Title''), (''required'', JBool True)]))
   = Inr \<lparr>type = ''unknown'', details = JObj fmempty\<rparr>"
  using get_column_type_unknown
    [of "fmap_of_list [(''name'', JStr ''Title''), (''required'', JBool True)]"]
  by simp

section \<open>The loops of \<^verbatim>\<open>generate_uml_graph\<close>\<close>

lemma map_filter_Nil: "List.map_filter f [] = []"
  by (simp add: List.map_filter_def)

lemma map_filter_append:
  "List.map_filter f (xs @ ys) = List.map_filter f xs @ List.map_filter f ys"
  by (simp add: List.map_filter_def)

lemma map_filter_Cons_Some:
  "f x = Some y \<Longrightarrow> List.map_filter f (x # xs) = y # List.map_filter f xs"
  by (simp add: List.map_filter_def)

lemma map_filter_Cons_None:
  "f x = None \<Longrightarrow> List.map_filter f (x # xs) = List.map_filter f xs"
  by (simp add: List.map_filter_def)

lemma rows_loop_Inr:
  "rows_loop n cols label rels = Inr (label', rels') \<Longrightarrow>
   label' = label @ concat (map table_row cols) \<and> rels' = rels @ relationships_of n cols"
proof (induction cols arbitrary: label rels)
  case Nil
  then show ?case by (simp add: relationships_of_def map_filter_Nil)
next
  case (Cons c cols)
  show ?case
  proof (cases "lookup_target c")
    case None
    then have step:
      "rows_loop n (c # cols) label rels = rows_loop n cols (label @ table_row c) rels
        \<or> rows_loop n (c # cols) label rels = Inl AttributeError"
      by (cases "details (type_details c)")
         (auto simp: lookup_target_def Let_def split: if_splits option.splits)
    with Cons.prems have "rows_loop n cols (label @ table_row c) rels = Inr (label', rels')"
      by auto
    from Cons.IH [OF this] None show ?thesis
      by (simp add: relationships_of_def map_filter_Cons_None)
  next
    case (Some t)
    then have step: "rows_loop n (c # cols) label rels =
        rows_loop n cols (label @ table_row c) (rels @ [(n, t, name c)])"
      by (cases "details (type_details c)")
         (auto simp: lookup_target_def Let_def split: if_splits option.splits)
    with Cons.prems
    have "rows_loop n cols (label @ table_row c) (rels @ [(n, t, name c)]) = Inr (label', rels')"
      by auto
    from Cons.IH [OF this] Some show ?thesis
      by (simp add: relationships_of_def map_filter_Cons_Some)
  qed
qed

lemma tables_loop_Inr:
  "tables_loop src d g rels lg = (lg', Inr (g', rels')) \<Longrightarrow>
   nodes g' = nodes g @ map (\<lambda>(n, i). (n, table_label n (columns_of src i))) d \<and>
   edges g' = edges g \<and>
   rels' = rels @ all_relationships src d"
proof (induction d arbitrary: g rels lg)
  case Nil
  then show ?case by (simp add: all_relationships_def)
next
  case (Cons p d)
  obtain n i where p: "p = (n, i)" by (cases p)
  obtain lg1 r where fc: "fetch_columns src i = (lg1, r)" by (cases "fetch_columns src i")
  from Cons.prems p fc obtain cols where r: "r = Inr cols"
    by (cases r) auto
  have co: "columns_of src i = cols" using fc r by (simp add: columns_of_def)
  from Cons.prems p fc r obtain label rels1 where
    rl: "rows_loop n cols (table_open n) rels = Inr (label, rels1)"
    by (cases "rows_loop n cols (table_open n) rels") auto
  from rows_loop_Inr [OF rl] have
    lab: "label = table_open n @ concat (map table_row cols)" and
    rels1: "rels1 = rels @ relationships_of n cols" by simp_all
  from Cons.prems p fc r rl have
    "tables_loop src d (g\<lparr>nodes := nodes g @ [(n, label @ table_close)]\<rparr>) rels1
       (lg @ lg1 @ [Generating_table n]) = (lg', Inr (g', rels'))"
    by simp
  from Cons.IH [OF this] show ?case
    using p co lab rels1 by (simp add: table_label_def all_relationships_def)
qed

lemma edges_loop_eq:
  "edges_loop d rels g = g\<lparr>edges := edges g @ List.map_filter (edge_of d) rels\<rparr>"
proof (induction rels arbitrary: g)
  case Nil
  show ?case by (simp add: map_filter_Nil)
next
  case (Cons r rels)
  obtain s t c where r: "r = (s, t, c)" by (cases r)
  show ?case
  proof (cases "edge_of d r")
    case None
    then have "edges_loop d (r # rels) g = edges_loop d rels g"
      using r by (auto simp: edge_of_def split: option.splits if_splits)
    then show ?thesis using Cons.IH None by (simp add: map_filter_Cons_None)
  next
    case (Some e)
    then have "edges_loop d (r # rels) g = edges_loop d rels (g\<lparr>edges := edges g @ [e]\<rparr>)"
      using r by (auto simp: edge_of_def split: option.splits if_splits)
    then show ?thesis using Cons.IH Some by (simp add: map_filter_Cons_Some)
  qed
qed

lemma generate_uml_graph_Inr:
  assumes "generate_uml_graph src d = (lg, Inr g)"
  shows "nodes g = map (\<lambda>(n, i). (n, table_label n (columns_of src i))) d"
    and "edges g = List.map_filter (edge_of d) (all_relationships src d)"
proof -
  from assms obtain g0 rels where
    tl: "tables_loop src d \<lparr>nodes = [], edges = []\<rparr> [] [] = (lg, Inr (g0, rels))" and
    g: "g = edges_loop d rels g0"
    by (auto simp: generate_uml_graph_def split: prod.splits sum.splits)
  from tables_loop_Inr [OF tl] g
  show "nodes g = map (\<lambda>(n, i). (n, table_label n (columns_of src i))) d"
    and "edges g = List.map_filter (edge_of d) (all_relationships src d)"
    by (simp_all add: edges_loop_eq)
qed

section \<open>Edges\<close>

lemma find_target_None:
  "\<forall>(n, i)\<in>set d. \<not> py_eq i t \<Longrightarrow> find_target d t = None"
  by (induction d) auto

lemma find_target_Some: "find_target d t = Some n \<Longrightarrow> \<exists>i. (n, i) \<in> set d \<and> py_eq i t"
  by (induction d) (auto split: if_splits)

text \<open>
  C2. A relationship whose target id equals the id of no list in \<^verbatim>\<open>lists_dict\<close> adds no edge:
  the edge loop returns the graph it returns without that relationship, so every node and
  every other edge is what it would be without it. The loop has no call that logs and no
  operation that raises (a comparison, a truth value test, \<^verbatim>\<open>graph.edge\<close>), so the drop is
  silent and the loop always returns.
\<close>

theorem dangling_reference_dropped:
  assumes "\<forall>(table_name, table_id)\<in>set lists_dict. \<not> py_eq table_id target_list_id"
  shows "edges_loop lists_dict (rs1 @ (source_table, target_list_id, column_name) # rs2) g
         = edges_loop lists_dict (rs1 @ rs2) g"
proof -
  have "edge_of lists_dict (source_table, target_list_id, column_name) = None"
    using find_target_None [OF assms] by (simp add: edge_of_def)
  then show ?thesis
    by (simp add: edges_loop_eq map_filter_append map_filter_Cons_None)
qed

theorem dangling_reference_dropped_witness:
  "list_all (\<lambda>(table_name, table_id). \<not> py_eq table_id (JStr ''L9'')) scenario_dict \<and>
   edges_loop scenario_dict
     [(AStr ''Orders'', JStr ''L2'', ''CustomerRef''), (AStr ''Orders'', JStr ''L9'', ''ArchiveRef''),
      (AStr ''Orders'', JStr ''L3'', ''ProductRef'')] \<lparr>nodes = [], edges = []\<rparr>
   = \<lparr>nodes = [],
      edges = [(AStr ''Orders'', AStr ''Customers'', ''CustomerRef''),
               (AStr ''Orders'', AStr ''Products'', ''ProductRef'')]\<rparr>"
proof -
  have h: "\<forall>(table_name, table_id)\<in>set scenario_dict. \<not> py_eq table_id (JStr ''L9'')"
    by (simp add: scenario_dict_def py_eq_def)
  have "edges_loop scenario_dict
     [(AStr ''Orders'', JStr ''L2'', ''CustomerRef''), (AStr ''Orders'', JStr ''L3'', ''ProductRef'')]
     \<lparr>nodes = [], edges = []\<rparr>
   = \<lparr>nodes = [],
      edges = [(AStr ''Orders'', AStr ''Customers'', ''CustomerRef''),
               (AStr ''Orders'', AStr ''Products'', ''ProductRef'')]\<rparr>"
    by (simp add: scenario_dict_def py_eq_def)
  then show ?thesis
    unfolding list_all_iff
    using h dangling_reference_dropped [OF h, of "[(AStr ''Orders'', JStr ''L2'', ''CustomerRef'')]"
        "AStr ''Orders''" "''ArchiveRef''" "[(AStr ''Orders'', JStr ''L3'', ''ProductRef'')]"
        "\<lparr>nodes = [], edges = []\<rparr>"]
    by simp
qed

lemma map_filter_cong_set:
  "\<forall>x\<in>set xs. f x = g x \<Longrightarrow> List.map_filter f xs = List.map_filter g xs"
  by (induction xs) (simp_all add: List.map_filter_def)

text \<open>
  Where every target found has a name that passes the truth value test, the edges are
  one per relationship whose target id is the id of a list, in the order of the
  relationships, from the source list to the first list with that id, labelled with the
  field name; nothing is merged or removed.
\<close>

lemma edges_of_resolved_relationships:
  assumes "generate_uml_graph src lists_dict = (lg, Inr g)"
    and "\<forall>(source_table, target_list_id, column_name)\<in>set (all_relationships src lists_dict).
           \<forall>target_table. find_target lists_dict target_list_id = Some target_table \<longrightarrow>
             truthy_atom target_table"
  shows "edges g =
           List.map_filter
             (\<lambda>(source_table, target_list_id, column_name).
                map_option (\<lambda>target_table. (source_table, target_table, column_name))
                  (find_target lists_dict target_list_id))
             (all_relationships src lists_dict)"
proof -
  have "\<forall>r\<in>set (all_relationships src lists_dict).
          edge_of lists_dict r =
          (case r of (source_table, target_list_id, column_name) \<Rightarrow>
             map_option (\<lambda>target_table. (source_table, target_table, column_name))
               (find_target lists_dict target_list_id))"
  proof
    fix r assume mem: "r \<in> set (all_relationships src lists_dict)"
    obtain s t c where r: "r = (s, t, c)" by (cases r)
    show "edge_of lists_dict r =
          (case r of (source_table, target_list_id, column_name) \<Rightarrow>
             map_option (\<lambda>target_table. (source_table, target_table, column_name))
               (find_target lists_dict target_list_id))"
    proof (cases "find_target lists_dict t")
      case None
      then show ?thesis using r by (simp add: edge_of_def)
    next
      case (Some n)
      with assms(2) mem r have "truthy_atom n" by blast
      then show ?thesis using r Some by (simp add: edge_of_def)
    qed
  qed
  from map_filter_cong_set [OF this] show ?thesis
    using generate_uml_graph_Inr(2) [OF assms(1)] by simp
qed

text \<open>
  C8. The claim is one edge for every relationship that resolves to a retained
  collection. The code breaks it where that collection has the empty display name: the
  source returns the lists \<^verbatim>\<open>""\<close> (id L0) and Orders (id L1), and Orders has the lookup
  field Ref with \<^verbatim>\<open>listId\<close> L0. Both nodes are drawn, the field gives one relationship and
  its target id is found, under the name \<^verbatim>\<open>""\<close>; \<^verbatim>\<open>if target_table:\<close> tests the truth value of
  the name where \<^verbatim>\<open>None\<close> is what the search returns for "not found", and no edge is added.
\<close>

theorem empty_display_name_edge_missing:
  "map_sum id (map fst \<circ> nodes) (snd (generate_uml_graph empty_name_src empty_name_dict)) =
     Inr [AStr [], AStr ''Orders''] \<and>
   all_relationships empty_name_src empty_name_dict = [(AStr ''Orders'', JStr ''L0'', ''Ref'')] \<and>
   find_target empty_name_dict (JStr ''L0'') = Some (AStr []) \<and>
   map_sum id edges (snd (generate_uml_graph empty_name_src empty_name_dict)) = Inr []"
  by code_simp

text \<open>
  C10. In the graph a run returns, the source and the target of every edge are names of
  nodes of the graph.
\<close>

theorem edges_reference_nodes:
  assumes "generate_uml_graph src lists_dict = (lg, Inr g)"
    and "(source_table, target_table, column_name) \<in> set (edges g)"
  shows "source_table \<in> fst ` set (nodes g) \<and> target_table \<in> fst ` set (nodes g)"
proof -
  have names: "fst ` set (nodes g) = fst ` set lists_dict"
    unfolding generate_uml_graph_Inr(1) [OF assms(1)] by force
  from assms(2) obtain r where
    r: "r \<in> set (all_relationships src lists_dict)" and
    e: "edge_of lists_dict r = Some (source_table, target_table, column_name)"
    unfolding generate_uml_graph_Inr(2) [OF assms(1)]
    by (auto simp: List.map_filter_def)
  obtain s t c where rt: "r = (s, t, c)" by (cases r)
  from e rt have s: "s = source_table" and ft: "find_target lists_dict t = Some target_table"
    by (auto simp: edge_of_def split: option.splits if_splits)
  from r rt obtain n i where "(n, i) \<in> set lists_dict"
    and "(s, t, c) \<in> set (relationships_of n (columns_of src i))"
    by (auto simp: all_relationships_def)
  then have "s \<in> fst ` set lists_dict"
    by (force simp: relationships_of_def List.map_filter_def)
  moreover from find_target_Some [OF ft] have "target_table \<in> fst ` set lists_dict"
    by force
  ultimately show ?thesis using names s by simp
qed

theorem edges_reference_nodes_witness:
  "(AStr ''Orders'', AStr ''Products'', ''ProductRef'')
     \<in> set (edges (projr (snd (generate_uml_graph scenario_src scenario_dict)))) \<and>
   AStr ''Orders'' \<in> fst ` set (nodes (projr (snd (generate_uml_graph scenario_src scenario_dict)))) \<and>
   AStr ''Products'' \<in> fst ` set (nodes (projr (snd (generate_uml_graph scenario_src scenario_dict))))"
proof -
  have "\<not> isl (snd (generate_uml_graph scenario_src scenario_dict))" by code_simp
  then obtain lg g where gen: "generate_uml_graph scenario_src scenario_dict = (lg, Inr g)"
    by (cases "generate_uml_graph scenario_src scenario_dict";
        cases "snd (generate_uml_graph scenario_src scenario_dict)") auto
  have "map_sum id edges (snd (generate_uml_graph scenario_src scenario_dict)) =
     Inr [(AStr ''Orders'', AStr ''Customers'', ''CustomerRef''),
          (AStr ''Orders'', AStr ''Products'', ''ProductRef'')]"
    by code_simp
  with gen have mem: "(AStr ''Orders'', AStr ''Products'', ''ProductRef'') \<in> set (edges g)"
    by simp
  show ?thesis using mem edges_reference_nodes [OF gen mem] gen by simp
qed

section \<open>Collection Filter and the name-keyed map\<close>

lemma atom_eq_refl [simp]: "atom_eq k k"
  by (simp add: atom_eq_def)

lemma atom_eq_sym: "atom_eq a b \<Longrightarrow> atom_eq b a"
  by (simp add: atom_eq_def)

lemma atom_eq_trans: "atom_eq a b \<Longrightarrow> atom_eq b c \<Longrightarrow> atom_eq a c"
  by (simp add: atom_eq_def)

lemma dict_get_set:
  "dict_get (dict_set d k v) k' = (if atom_eq k k' then Some v else dict_get d k')"
proof (induction d)
  case Nil
  show ?case by simp
next
  case (Cons p d)
  obtain k0 w where p: "p = (k0, w)" by (cases p)
  show ?case using Cons.IH p
    by (auto simp: atom_eq_def)
qed

lemma keys_dict_set: "fst ` set (dict_set d k v) \<subseteq> insert k (fst ` set d)"
proof (induction d)
  case Nil
  show ?case by simp
next
  case (Cons p d)
  obtain k0 w where p: "p = (k0, w)" by (cases p)
  show ?case using Cons.IH p by auto
qed

text \<open>One step of the loop, by the three kinds of item.\<close>

lemma lists_loop_malformed:
  "\<not> list_item_ok item \<Longrightarrow>
   lists_loop ig (item # items) d lg = lists_loop ig items d (lg @ [Unexpected_item item])"
  by simp

lemma list_item_ok_iff:
  "list_item_ok item \<longleftrightarrow>
     (\<exists>m dn i. item = JObj m \<and> fmlookup m ''displayName'' = Some dn \<and> fmlookup m ''id'' = Some i)"
  by (cases item) (auto simp: fmlookup_dom_iff)

lemma lists_loop_ignored:
  "fmlookup m ''displayName'' = Some dn \<Longrightarrow> fmlookup m ''id'' = Some i \<Longrightarrow> in_names dn ig \<Longrightarrow>
   lists_loop ig (JObj m # items) d lg = lists_loop ig items d lg"
  by (simp add: fmlookup_dom_iff)

lemma lists_loop_retained:
  "fmlookup m ''displayName'' = Some (Atom k) \<Longrightarrow> fmlookup m ''id'' = Some i \<Longrightarrow>
   \<not> in_names (Atom k) ig \<Longrightarrow>
   lists_loop ig (JObj m # items) d lg = lists_loop ig items (dict_set d k i) lg"
  by (simp add: fmlookup_dom_iff)

lemma lists_loop_unhashable:
  "fmlookup m ''displayName'' = Some dn \<Longrightarrow> fmlookup m ''id'' = Some i \<Longrightarrow>
   \<not> in_names dn ig \<Longrightarrow> \<forall>k. dn \<noteq> Atom k \<Longrightarrow>
   lists_loop ig (JObj m # items) d lg = (lg, Inl TypeError)"
  by (cases dn) (simp_all add: fmlookup_dom_iff)

declare lists_loop.simps(2) [simp del]

lemma lists_loop_keys:
  "lists_loop ig items d lg = (lg', Inr d') \<Longrightarrow>
   \<forall>k\<in>fst ` set d. \<not> in_names (Atom k) ig \<Longrightarrow>
   \<forall>k\<in>fst ` set d'. \<not> in_names (Atom k) ig"
proof (induction items arbitrary: d lg)
  case Nil
  then show ?case by simp
next
  case (Cons item items)
  show ?case
  proof (cases "list_item_ok item")
    case False
    with Cons.prems(1) have "lists_loop ig items d (lg @ [Unexpected_item item]) = (lg', Inr d')"
      by (simp add: lists_loop_malformed)
    from Cons.IH [OF this Cons.prems(2)] show ?thesis .
  next
    case True
    then obtain m dn i where item: "item = JObj m" and dn: "fmlookup m ''displayName'' = Some dn"
      and i: "fmlookup m ''id'' = Some i"
      by (auto simp: list_item_ok_iff)
    show ?thesis
    proof (cases "in_names dn ig")
      case True
      from Cons.prems(1) have "lists_loop ig items d lg = (lg', Inr d')"
        unfolding item lists_loop_ignored [OF dn i True] .
      from Cons.IH [OF this Cons.prems(2)] show ?thesis .
    next
      case False
      show ?thesis
      proof (cases "\<exists>k. dn = Atom k")
        case True
        then obtain k where k: "dn = Atom k" by blast
        from Cons.prems(1) have run: "lists_loop ig items (dict_set d k i) lg = (lg', Inr d')"
          unfolding item lists_loop_retained [OF dn [unfolded k] i False [unfolded k]] .
        have "\<forall>k'\<in>fst ` set (dict_set d k i). \<not> in_names (Atom k') ig"
        proof
          fix k' assume "k' \<in> fst ` set (dict_set d k i)"
          with keys_dict_set [of d k i] have "k' = k \<or> k' \<in> fst ` set d" by blast
          then show "\<not> in_names (Atom k') ig"
          proof
            assume "k' = k"
            then show ?thesis using False k by simp
          next
            assume "k' \<in> fst ` set d"
            then show ?thesis using Cons.prems(2) by blast
          qed
        qed
        from Cons.IH [OF run this] show ?thesis .
      next
        case False
        then have na: "\<forall>k. dn \<noteq> Atom k" by blast
        from Cons.prems(1) show ?thesis
          unfolding item lists_loop_unhashable [OF dn i \<open>\<not> in_names dn ig\<close> na] by simp
      qed
    qed
  qed
qed

lemma fetch_sharepoint_lists_cases:
  "(\<exists>lg. fetch_sharepoint_lists ig response = (lg, Inr [])) \<or>
   (\<exists>lg e. fetch_sharepoint_lists ig response = (lg, Inl e)) \<or>
   (\<exists>items lg0. fetch_sharepoint_lists ig response = lists_loop ig items [] lg0)"
proof (cases response)
  case None
  then show ?thesis by (simp add: fetch_sharepoint_lists_def fetch_data_def)
next
  case (Some body)
  show ?thesis
  proof (cases "truthy body")
    case False
    then show ?thesis using Some by (simp add: fetch_sharepoint_lists_def fetch_data_def)
  next
    case True
    show ?thesis
    proof (cases "py_in ''value'' body")
      case (Inl e)
      then show ?thesis using Some True by (simp add: fetch_sharepoint_lists_def fetch_data_def)
    next
      case (Inr b)
      show ?thesis
      proof (cases b)
        case False
        then show ?thesis using Some True Inr
          by (simp add: fetch_sharepoint_lists_def fetch_data_def)
      next
        case b: True
        show ?thesis
        proof (cases "py_getitem body ''value''")
          case (Inl e)
          then show ?thesis using Some True Inr b
            by (simp add: fetch_sharepoint_lists_def fetch_data_def)
        next
          case v: (Inr v)
          show ?thesis
          proof (cases "py_iter v")
            case (Inl e)
            then show ?thesis using Some True Inr b v
              by (simp add: fetch_sharepoint_lists_def fetch_data_def)
          next
            case items: (Inr items)
            have "fetch_sharepoint_lists ig response = lists_loop ig items [] []"
              using Some True Inr b v items
              by (simp add: fetch_sharepoint_lists_def fetch_data_def)
            then show ?thesis by blast
          qed
        qed
      qed
    qed
  qed
qed

lemma fetch_sharepoint_lists_keys:
  assumes "fetch_sharepoint_lists ig response = (lg, Inr d)"
  shows "\<forall>k\<in>fst ` set d. \<not> in_names (Atom k) ig"
proof -
  from fetch_sharepoint_lists_cases [of ig response] assms
  consider "d = []" | items lg0 where "lists_loop ig items [] lg0 = (lg, Inr d)"
    by auto
  then show ?thesis
  proof cases
    case 1
    then show ?thesis by simp
  next
    case 2
    from lists_loop_keys [OF 2] show ?thesis by simp
  qed
qed

text \<open>
  C4. Whatever the source returns, when a run builds a graph no node of it is named by a
  string of the ignore list. This holds for any ignore list, so for \<open>LISTS_TO_IGNORE_app\<close>
  and \<open>LISTS_TO_IGNORE_main\<close>.
\<close>

theorem ignored_collections_have_no_node:
  assumes "main ig response src = (lg, Inr (Some g))"
    and "list_name \<in> set ig"
  shows "AStr list_name \<notin> fst ` set (nodes g)"
proof -
  from assms(1) obtain lg1 d lg2 where
    f: "fetch_sharepoint_lists ig response = (lg1, Inr d)" and
    gen: "generate_uml_graph src d = (lg2, Inr g)"
    by (auto simp: main_def split: prod.splits sum.splits if_splits)
  have "fst ` set (nodes g) = fst ` set d"
    unfolding generate_uml_graph_Inr(1) [OF gen] by force
  moreover have "AStr list_name \<notin> fst ` set d"
  proof
    assume "AStr list_name \<in> fst ` set d"
    with fetch_sharepoint_lists_keys [OF f] have "\<not> in_names (JStr list_name) ig"
      by blast
    then show False using assms(2) by simp
  qed
  ultimately show ?thesis by simp
qed

text \<open>Scenario B with \<^verbatim>\<open>main.py\<close>: the source returns Documents and Tasks; every field listing fails.\<close>

theorem ignored_collections_have_no_node_witness:
  "''Documents'' \<in> set LISTS_TO_IGNORE_main \<and>
   map_sum id (map_option (map fst \<circ> nodes))
     (snd (main LISTS_TO_IGNORE_main
        (Some (payload [list_item ''Documents'' ''D1'', list_item ''Tasks'' ''T1''])) (\<lambda>i. None)))
     = Inr (Some [AStr ''Tasks'']) \<and>
   AStr ''Documents'' \<notin> set [AStr ''Tasks'']"
proof -
  let ?run = "main LISTS_TO_IGNORE_main
        (Some (payload [list_item ''Documents'' ''D1'', list_item ''Tasks'' ''T1''])) (\<lambda>i. None)"
  have ig: "''Documents'' \<in> set LISTS_TO_IGNORE_main"
    by (simp add: LISTS_TO_IGNORE_main_def)
  have names: "map_sum id (map_option (map fst \<circ> nodes)) (snd ?run) = Inr (Some [AStr ''Tasks''])"
    by code_simp
  then obtain lg g where run: "?run = (lg, Inr (Some g))" and g: "map fst (nodes g) = [AStr ''Tasks'']"
    by (cases ?run; cases "snd ?run"; cases "projr (snd ?run)") auto
  from ignored_collections_have_no_node [OF run ig] g
  have "AStr ''Documents'' \<notin> set [AStr ''Tasks'']"
    by (metis list.set_map)
  then show ?thesis using ig names by blast
qed

lemma lists_loop_log_indep:
  "snd (lists_loop ig items d lg) = snd (lists_loop ig items d lg')"
proof (induction items arbitrary: d lg lg')
  case Nil
  show ?case by simp
next
  case (Cons item items)
  show ?case
  proof (cases "list_item_ok item")
    case False
    then show ?thesis using Cons.IH by (simp add: lists_loop_malformed)
  next
    case True
    then obtain m dn i where item: "item = JObj m" and dn: "fmlookup m ''displayName'' = Some dn"
      and i: "fmlookup m ''id'' = Some i"
      by (auto simp: list_item_ok_iff)
    show ?thesis
    proof (cases "in_names dn ig")
      case True
      show ?thesis unfolding item lists_loop_ignored [OF dn i True] by (rule Cons.IH)
    next
      case False
      show ?thesis
      proof (cases "\<exists>k. dn = Atom k")
        case True
        then obtain k where k: "dn = Atom k" by blast
        show ?thesis
          unfolding item lists_loop_retained [OF dn [unfolded k] i False [unfolded k]]
          by (rule Cons.IH)
      next
        case False
        then have na: "\<forall>k. dn \<noteq> Atom k" by blast
        show ?thesis
          unfolding item lists_loop_unhashable [OF dn i \<open>\<not> in_names dn ig\<close> na] by simp
      qed
    qed
  qed
qed

lemma lists_loop_append:
  "lists_loop ig (xs @ ys) d lg =
     (case lists_loop ig xs d lg of
        (lg1, Inr d1) \<Rightarrow> lists_loop ig ys d1 lg1
      | (lg1, Inl e) \<Rightarrow> (lg1, Inl e))"
proof (induction xs arbitrary: d lg)
  case Nil
  show ?case by simp
next
  case (Cons item items)
  show ?case
  proof (cases "list_item_ok item")
    case False
    then show ?thesis using Cons.IH by (simp add: lists_loop_malformed)
  next
    case True
    then obtain m dn i where item: "item = JObj m" and dn: "fmlookup m ''displayName'' = Some dn"
      and i: "fmlookup m ''id'' = Some i"
      by (auto simp: list_item_ok_iff)
    show ?thesis
    proof (cases "in_names dn ig")
      case True
      show ?thesis unfolding item append_Cons lists_loop_ignored [OF dn i True] by (rule Cons.IH)
    next
      case False
      show ?thesis
      proof (cases "\<exists>k. dn = Atom k")
        case True
        then obtain k where k: "dn = Atom k" by blast
        show ?thesis
          unfolding item append_Cons lists_loop_retained [OF dn [unfolded k] i False [unfolded k]]
          by (rule Cons.IH)
      next
        case False
        then have na: "\<forall>k. dn \<noteq> Atom k" by blast
        show ?thesis
          unfolding item append_Cons lists_loop_unhashable [OF dn i \<open>\<not> in_names dn ig\<close> na]
          by simp
      qed
    qed
  qed
qed

lemma lists_loop_succeeds:
  "\<forall>x\<in>set items. \<forall>m v. x = JObj m \<longrightarrow> fmlookup m ''displayName'' = Some v \<longrightarrow> (\<exists>k. v = Atom k)
   \<Longrightarrow> \<exists>lg' d'. lists_loop ig items d lg = (lg', Inr d')"
proof (induction items arbitrary: d lg)
  case Nil
  show ?case by simp
next
  case (Cons item items)
  from Cons.prems have rest:
    "\<forall>x\<in>set items. \<forall>m v. x = JObj m \<longrightarrow> fmlookup m ''displayName'' = Some v \<longrightarrow> (\<exists>k. v = Atom k)"
    by simp
  show ?case
  proof (cases "list_item_ok item")
    case False
    then show ?thesis using Cons.IH [OF rest] by (simp add: lists_loop_malformed)
  next
    case True
    then obtain m dn i where item: "item = JObj m" and dn: "fmlookup m ''displayName'' = Some dn"
      and i: "fmlookup m ''id'' = Some i"
      by (auto simp: list_item_ok_iff)
    from Cons.prems item dn obtain k where k: "dn = Atom k" by auto
    show ?thesis
    proof (cases "in_names dn ig")
      case True
      show ?thesis unfolding item lists_loop_ignored [OF dn i True] by (rule Cons.IH [OF rest])
    next
      case False
      show ?thesis
        unfolding item lists_loop_retained [OF dn [unfolded k] i False [unfolded k]]
        by (rule Cons.IH [OF rest])
    qed
  qed
qed

lemma lists_loop_later:
  "\<forall>z\<in>set zs. \<forall>m k. z = JObj m \<longrightarrow> list_item_ok z \<longrightarrow>
      fmlookup m ''displayName'' = Some (Atom k) \<longrightarrow> \<not> atom_eq k n
   \<Longrightarrow> lists_loop ig zs d lg = (lg', Inr d') \<Longrightarrow> dict_get d' n = dict_get d n"
proof (induction zs arbitrary: d lg)
  case Nil
  then show ?case by simp
next
  case (Cons item items)
  from Cons.prems(1) have rest:
    "\<forall>z\<in>set items. \<forall>m k. z = JObj m \<longrightarrow> list_item_ok z \<longrightarrow>
      fmlookup m ''displayName'' = Some (Atom k) \<longrightarrow> \<not> atom_eq k n"
    by simp
  show ?case
  proof (cases "list_item_ok item")
    case False
    with Cons.prems(2) have "lists_loop ig items d (lg @ [Unexpected_item item]) = (lg', Inr d')"
      by (simp add: lists_loop_malformed)
    from Cons.IH [OF rest this] show ?thesis .
  next
    case True
    then obtain m dn i where item: "item = JObj m" and dn: "fmlookup m ''displayName'' = Some dn"
      and i: "fmlookup m ''id'' = Some i"
      by (auto simp: list_item_ok_iff)
    show ?thesis
    proof (cases "in_names dn ig")
      case True
      from Cons.prems(2) have "lists_loop ig items d lg = (lg', Inr d')"
        unfolding item lists_loop_ignored [OF dn i True] .
      from Cons.IH [OF rest this] show ?thesis .
    next
      case False
      show ?thesis
      proof (cases "\<exists>k. dn = Atom k")
        case True
        then obtain k where k: "dn = Atom k" by blast
        from Cons.prems(2) have run: "lists_loop ig items (dict_set d k i) lg = (lg', Inr d')"
          unfolding item lists_loop_retained [OF dn [unfolded k] i False [unfolded k]] .
        from Cons.prems(1) item \<open>list_item_ok item\<close> dn k have "\<not> atom_eq k n" by simp
        with Cons.IH [OF rest run] show ?thesis by (simp add: dict_get_set)
      next
        case False
        then have na: "\<forall>k. dn \<noteq> Atom k" by blast
        from Cons.prems(2) show ?thesis
          unfolding item lists_loop_unhashable [OF dn i \<open>\<not> in_names dn ig\<close> na] by simp
      qed
    qed
  qed
qed

lemma dict_set_norm_keys:
  "map (norm_atom \<circ> fst) (dict_set d k v) =
     (if norm_atom k \<in> set (map (norm_atom \<circ> fst) d) then map (norm_atom \<circ> fst) d
      else map (norm_atom \<circ> fst) d @ [norm_atom k])"
proof (induction d)
  case Nil
  show ?case by simp
next
  case (Cons p d)
  obtain k0 w where p: "p = (k0, w)" by (cases p)
  show ?case using Cons.IH p by (auto simp: atom_eq_def)
qed

lemma dict_set_distinct:
  "distinct (map (norm_atom \<circ> fst) d) \<Longrightarrow> distinct (map (norm_atom \<circ> fst) (dict_set d k v))"
  by (simp add: dict_set_norm_keys del: map_map)

lemma lists_loop_distinct:
  "lists_loop ig items d lg = (lg', Inr d') \<Longrightarrow> distinct (map (norm_atom \<circ> fst) d) \<Longrightarrow>
   distinct (map (norm_atom \<circ> fst) d')"
proof (induction items arbitrary: d lg)
  case Nil
  then show ?case by simp
next
  case (Cons item items)
  show ?case
  proof (cases "list_item_ok item")
    case False
    with Cons.prems(1) have "lists_loop ig items d (lg @ [Unexpected_item item]) = (lg', Inr d')"
      by (simp add: lists_loop_malformed)
    from Cons.IH [OF this Cons.prems(2)] show ?thesis .
  next
    case True
    then obtain m dn i where item: "item = JObj m" and dn: "fmlookup m ''displayName'' = Some dn"
      and i: "fmlookup m ''id'' = Some i"
      by (auto simp: list_item_ok_iff)
    show ?thesis
    proof (cases "in_names dn ig")
      case True
      from Cons.prems(1) have "lists_loop ig items d lg = (lg', Inr d')"
        unfolding item lists_loop_ignored [OF dn i True] .
      from Cons.IH [OF this Cons.prems(2)] show ?thesis .
    next
      case False
      show ?thesis
      proof (cases "\<exists>k. dn = Atom k")
        case True
        then obtain k where k: "dn = Atom k" by blast
        from Cons.prems(1) have run: "lists_loop ig items (dict_set d k i) lg = (lg', Inr d')"
          unfolding item lists_loop_retained [OF dn [unfolded k] i False [unfolded k]] .
        from Cons.IH [OF run dict_set_distinct [OF Cons.prems(2)]] show ?thesis .
      next
        case False
        then have na: "\<forall>k. dn \<noteq> Atom k" by blast
        from Cons.prems(1) show ?thesis
          unfolding item lists_loop_unhashable [OF dn i \<open>\<not> in_names dn ig\<close> na] by simp
      qed
    qed
  qed
qed

lemma dict_get_None: "dict_get d n = None \<Longrightarrow> filter (\<lambda>(k, w). atom_eq k n) d = []"
proof (induction d)
  case Nil
  show ?case by simp
next
  case (Cons p d)
  obtain k0 w where p: "p = (k0, w)" by (cases p)
  show ?case using Cons p by (auto split: if_splits)
qed

lemma dict_get_notin:
  "norm_atom n \<notin> set (map (norm_atom \<circ> fst) d) \<Longrightarrow> dict_get d n = None"
proof (induction d)
  case Nil
  show ?case by simp
next
  case (Cons p d)
  obtain k0 w where p: "p = (k0, w)" by (cases p)
  show ?case using Cons p by (auto simp: atom_eq_def)
qed

lemma dict_get_unique:
  "distinct (map (norm_atom \<circ> fst) d) \<Longrightarrow> dict_get d n = Some v \<Longrightarrow>
   map snd (filter (\<lambda>(k, w). atom_eq k n) d) = [v]"
proof (induction d)
  case Nil
  then show ?case by simp
next
  case (Cons p d)
  obtain k0 w where p: "p = (k0, w)" by (cases p)
  show ?case
  proof (cases "atom_eq k0 n")
    case True
    with Cons.prems p have v: "v = w" by simp
    from Cons.prems(1) p True have "norm_atom n \<notin> set (map (norm_atom \<circ> fst) d)"
      by (simp add: atom_eq_def)
    from dict_get_None [OF dict_get_notin [OF this]] show ?thesis using p True v by simp
  next
    case False
    with Cons p show ?thesis by simp
  qed
qed

lemma fetch_sharepoint_lists_array:
  assumes "fmlookup body ''value'' = Some (JArr items)"
  shows "fetch_sharepoint_lists ig (Some (JObj body)) = lists_loop ig items [] []"
proof -
  have "body \<noteq> fmempty" using assms by auto
  moreover have "''value'' |\<in>| fmdom body" using assms by (simp add: fmlookup_dom_iff)
  ultimately show ?thesis using assms
    by (simp add: fetch_sharepoint_lists_def fetch_data_def)
qed

text \<open>
  C7. The source returns the items \<open>xs @ JObj a # ys @ JObj b # zs\<close>, where \<open>a\<close> and \<open>b\<close> are
  two collections with the same display name \<open>n\<close>, not in the ignore list, and \<open>b\<close> is the
  last collection of that name. Display names are hashable values (in practice strings).
  Then \<^verbatim>\<open>fetch_sharepoint_lists\<close> returns a dictionary and does not raise; the dictionary
  maps \<open>n\<close> to the id of \<open>b\<close>, and that is its only entry for the name.
\<close>

theorem last_write_wins:
  assumes "fmlookup body ''value'' = Some (JArr (xs @ JObj a # ys @ JObj b # zs))"
    and "fmlookup a ''displayName'' = Some (Atom n)" and "fmlookup a ''id'' = Some id_a"
    and "fmlookup b ''displayName'' = Some (Atom n)" and "fmlookup b ''id'' = Some id_b"
    and "\<not> in_names (Atom n) ig"
    and "\<forall>z\<in>set zs. \<forall>m k. z = JObj m \<longrightarrow> list_item_ok z \<longrightarrow>
           fmlookup m ''displayName'' = Some (Atom k) \<longrightarrow> \<not> atom_eq k n"
    and "\<forall>x\<in>set (xs @ ys @ zs). \<forall>m v. x = JObj m \<longrightarrow>
           fmlookup m ''displayName'' = Some v \<longrightarrow> (\<exists>k. v = Atom k)"
  shows "\<exists>lg d. fetch_sharepoint_lists ig (Some (JObj body)) = (lg, Inr d) \<and>
           dict_get d n = Some id_b \<and>
           map snd (filter (\<lambda>(k, v). atom_eq k n) d) = [id_b]"
proof -
  let ?pre = "xs @ JObj a # ys"
  have pre_ok: "\<forall>x\<in>set ?pre. \<forall>m v. x = JObj m \<longrightarrow>
           fmlookup m ''displayName'' = Some v \<longrightarrow> (\<exists>k. v = Atom k)"
    using assms(2,8) by auto
  have zs_ok: "\<forall>x\<in>set zs. \<forall>m v. x = JObj m \<longrightarrow>
           fmlookup m ''displayName'' = Some v \<longrightarrow> (\<exists>k. v = Atom k)"
    using assms(8) by auto
  from lists_loop_succeeds [OF pre_ok] obtain lg1 d1 where
    pre: "lists_loop ig ?pre [] [] = (lg1, Inr d1)" by blast
  have b: "lists_loop ig (JObj b # zs) d1 lg1 = lists_loop ig zs (dict_set d1 n id_b) lg1"
    by (rule lists_loop_retained [OF assms(4,5,6)])
  from lists_loop_succeeds [OF zs_ok] obtain lg d where
    post: "lists_loop ig zs (dict_set d1 n id_b) lg1 = (lg, Inr d)" by blast
  have split: "xs @ JObj a # ys @ JObj b # zs = ?pre @ (JObj b # zs)" by simp
  have "lists_loop ig (?pre @ (JObj b # zs)) [] [] =
          (case lists_loop ig ?pre [] [] of
             (lg1, Inr d1) \<Rightarrow> lists_loop ig (JObj b # zs) d1 lg1
           | (lg1, Inl e) \<Rightarrow> (lg1, Inl e))"
    by (rule lists_loop_append)
  also have "\<dots> = lists_loop ig (JObj b # zs) d1 lg1"
    by (simp add: pre)
  also have "\<dots> = (lg, Inr d)"
    using b post by simp
  finally have run: "fetch_sharepoint_lists ig (Some (JObj body)) = (lg, Inr d)"
    unfolding fetch_sharepoint_lists_array [OF assms(1)] split .
  have get: "dict_get d n = Some id_b"
    using lists_loop_later [OF assms(7) post] by (simp add: dict_get_set)
  have "distinct (map (norm_atom \<circ> fst) d1)"
    using lists_loop_distinct [OF pre] by simp
  from lists_loop_distinct [OF post dict_set_distinct [OF this]]
  have "distinct (map (norm_atom \<circ> fst) d)" .
  from dict_get_unique [OF this get]
  have u: "map snd (filter (\<lambda>(k, v). atom_eq k n) d) = [id_b]" .
  show ?thesis
    by (rule exI [of _ lg], rule exI [of _ d]) (simp add: run get u)
qed

theorem last_write_wins_witness:
  "snd (fetch_sharepoint_lists LISTS_TO_IGNORE_app
          (Some (payload [list_item ''Tasks'' ''T1'', list_item ''Notes'' ''N1'',
                          list_item ''Tasks'' ''T2''])))
     = Inr [(AStr ''Tasks'', JStr ''T2''), (AStr ''Notes'', JStr ''N1'')] \<and>
   dict_get (projr (snd (fetch_sharepoint_lists LISTS_TO_IGNORE_app
          (Some (payload [list_item ''Tasks'' ''T1'', list_item ''Notes'' ''N1'',
                          list_item ''Tasks'' ''T2'']))))) (AStr ''Tasks'')
     = Some (JStr ''T2'')"
proof -
  let ?a = "fmap_of_list [(''displayName'', JStr ''Tasks''), (''id'', JStr ''T1'')]"
  let ?b = "fmap_of_list [(''displayName'', JStr ''Tasks''), (''id'', JStr ''T2'')]"
  let ?body = "fmap_of_list [(''value'', JArr [list_item ''Tasks'' ''T1'', list_item ''Notes'' ''N1'',
                          list_item ''Tasks'' ''T2''])]"
  have 1: "fmlookup ?body ''value'' =
      Some (JArr ([] @ JObj ?a # [list_item ''Notes'' ''N1''] @ JObj ?b # []))"
    by (simp add: list_item_def)
  have 2: "fmlookup ?a ''displayName'' = Some (Atom (AStr ''Tasks''))"
    and 3: "fmlookup ?a ''id'' = Some (JStr ''T1'')"
    and 4: "fmlookup ?b ''displayName'' = Some (Atom (AStr ''Tasks''))"
    and 5: "fmlookup ?b ''id'' = Some (JStr ''T2'')"
    by simp_all
  have 6: "\<not> in_names (Atom (AStr ''Tasks'')) LISTS_TO_IGNORE_app"
    by (simp add: LISTS_TO_IGNORE_app_def)
  have 7: "\<forall>z\<in>set []. \<forall>m k. z = JObj m \<longrightarrow> list_item_ok z \<longrightarrow>
           fmlookup m ''displayName'' = Some (Atom k) \<longrightarrow> \<not> atom_eq k (AStr ''Tasks'')"
    by simp
  have 8: "\<forall>x\<in>set ([] @ [list_item ''Notes'' ''N1''] @ []). \<forall>m v. x = JObj m \<longrightarrow>
           fmlookup m ''displayName'' = Some v \<longrightarrow> (\<exists>k. v = Atom k)"
    by (auto simp: list_item_def)
  from last_write_wins [OF 1 2 3 4 5 6 7 8] obtain lg d where
    run: "fetch_sharepoint_lists LISTS_TO_IGNORE_app (Some (JObj ?body)) = (lg, Inr d)" and
    get: "dict_get d (AStr ''Tasks'') = Some (JStr ''T2'')"
    by blast
  have "snd (fetch_sharepoint_lists LISTS_TO_IGNORE_app
          (Some (payload [list_item ''Tasks'' ''T1'', list_item ''Notes'' ''N1'',
                          list_item ''Tasks'' ''T2''])))
     = Inr [(AStr ''Tasks'', JStr ''T2''), (AStr ''Notes'', JStr ''N1'')]"
    by code_simp
  then show ?thesis using run get by (simp add: payload_def)
qed

section \<open>The matcher and the ignore pattern\<close>

lemma nullable_lang: "nullable r \<longleftrightarrow> [] \<in> lang r"
  by (induction r) (auto intro: star_empty)

lemma star_Cons:
  "c # w \<in> star A \<longleftrightarrow> (\<exists>u v. w = u @ v \<and> c # u \<in> A \<and> v \<in> star A)"
proof
  assume cw: "c # w \<in> star A"
  have "\<forall>c w. x = c # w \<longrightarrow> (\<exists>u v. w = u @ v \<and> c # u \<in> A \<and> v \<in> star A)"
    if "x \<in> star A" for x
    using that
  proof (induction rule: star.induct)
    case star_empty
    show ?case by simp
  next
    case (star_step u v)
    show ?case
    proof (cases u)
      case Nil
      with star_step.IH show ?thesis by simp
    next
      case (Cons a u')
      with star_step.hyps show ?thesis by auto
    qed
  qed
  with cw show "\<exists>u v. w = u @ v \<and> c # u \<in> A \<and> v \<in> star A" by blast
next
  assume "\<exists>u v. w = u @ v \<and> c # u \<in> A \<and> v \<in> star A"
  then obtain u v where "w = u @ v" "c # u \<in> A" "v \<in> star A" by blast
  then show "c # w \<in> star A" using star_step [of "c # u" A v] by simp
qed

lemma deriv_lang: "w \<in> lang (deriv c r) \<longleftrightarrow> c # w \<in> lang r"
proof (induction r arbitrary: w)
  case (Seq r s)
  show ?case
  proof (cases "nullable r")
    case True
    then have e: "[] \<in> lang r" by (simp add: nullable_lang)
    show ?thesis using True e Seq
      by (auto simp: Cons_eq_append_conv)
  next
    case False
    then have e: "[] \<notin> lang r" by (simp add: nullable_lang)
    show ?thesis using False e Seq
      by (auto simp: Cons_eq_append_conv)
  qed
next
  case (Star r)
  then show ?case by (auto simp: star_Cons)
qed auto

lemma re_match_lang: "re_match r s \<longleftrightarrow> (\<exists>p q. s = p @ q \<and> p \<in> lang r)"
proof (induction s arbitrary: r)
  case Nil
  show ?case by (simp add: nullable_lang)
next
  case (Cons c s)
  show ?case
  proof
    assume "re_match r (c # s)"
    then consider "nullable r" | "re_match (deriv c r) s" by auto
    then show "\<exists>p q. c # s = p @ q \<and> p \<in> lang r"
    proof cases
      case 1
      then have "c # s = [] @ (c # s) \<and> [] \<in> lang r" by (simp add: nullable_lang)
      then show ?thesis by blast
    next
      case 2
      then obtain p q where "s = p @ q" "p \<in> lang (deriv c r)" using Cons.IH by blast
      then have "c # s = (c # p) @ q \<and> c # p \<in> lang r" by (simp add: deriv_lang)
      then show ?thesis by blast
    qed
  next
    assume "\<exists>p q. c # s = p @ q \<and> p \<in> lang r"
    then obtain p q where pq: "c # s = p @ q" "p \<in> lang r" by blast
    show "re_match r (c # s)"
    proof (cases p)
      case Nil
      with pq have "nullable r" by (simp add: nullable_lang)
      then show ?thesis by simp
    next
      case (Cons a p')
      with pq have "s = p' @ q" "p' \<in> lang (deriv c r)" by (simp_all add: deriv_lang)
      then have "re_match (deriv c r) s" using Cons.IH by blast
      then show ?thesis by simp
    qed
  qed
qed

lemma lang_literal: "lang (literal s) = {s}"
  by (induction s) auto

lemma star_Dot: "star (lang Dot) = {w. CHR 0x0A \<notin> set w}"
proof (intro set_eqI iffI)
  fix w assume "w \<in> star (lang Dot)"
  then show "w \<in> {w. CHR 0x0A \<notin> set w}"
    by (induction rule: star.induct) auto
next
  fix w assume "w \<in> {w. CHR 0x0A \<notin> set w}"
  then have "CHR 0x0A \<notin> set w" by simp
  then show "w \<in> star (lang Dot)"
  proof (induction w)
    case Nil
    show ?case by (rule star_empty)
  next
    case (Cons c w)
    then have "[c] \<in> lang Dot" "w \<in> star (lang Dot)" by auto
    from star_step [OF this] show ?case by simp
  qed
qed

lemma lang_column_pattern:
  "lang COLUMN_PATTERN_TO_IGNORE =
     {u @ ''x003a'' @ v |u v. CHR 0x0A \<notin> set u \<and> CHR 0x0A \<notin> set v}"
proof -
  have sd: "lang (Star Dot) = {w. CHR 0x0A \<notin> set w}"
    using star_Dot by simp
  have "lang COLUMN_PATTERN_TO_IGNORE =
          {u @ w |u w. u \<in> lang (Star Dot) \<and>
             w \<in> {x @ v |x v. x \<in> lang (literal ''x003a'') \<and> v \<in> lang (Star Dot)}}"
    unfolding COLUMN_PATTERN_TO_IGNORE_def lang.simps(6) ..
  also have "\<dots> = {u @ ''x003a'' @ v |u v. CHR 0x0A \<notin> set u \<and> CHR 0x0A \<notin> set v}"
    unfolding sd lang_literal by blast
  finally show ?thesis .
qed

lemma column_pattern_match:
  "re_match COLUMN_PATTERN_TO_IGNORE s \<longleftrightarrow>
     (\<exists>p q. s = p @ ''x003a'' @ q \<and> CHR 0x0A \<notin> set p)"
proof
  assume "re_match COLUMN_PATTERN_TO_IGNORE s"
  then obtain u v q where "s = (u @ ''x003a'' @ v) @ q" "CHR 0x0A \<notin> set u"
    unfolding re_match_lang lang_column_pattern by blast
  then have "s = u @ ''x003a'' @ (v @ q) \<and> CHR 0x0A \<notin> set u" by simp
  then show "\<exists>p q. s = p @ ''x003a'' @ q \<and> CHR 0x0A \<notin> set p" by blast
next
  assume "\<exists>p q. s = p @ ''x003a'' @ q \<and> CHR 0x0A \<notin> set p"
  then obtain p q where s: "s = p @ ''x003a'' @ q" and p: "CHR 0x0A \<notin> set p" by blast
  have "p @ ''x003a'' @ [] \<in> lang COLUMN_PATTERN_TO_IGNORE"
    unfolding lang_column_pattern using p by fastforce
  moreover have "s = (p @ ''x003a'' @ []) @ q" using s by simp
  ultimately show "re_match COLUMN_PATTERN_TO_IGNORE s"
    unfolding re_match_lang by blast
qed

text \<open>
  So \<^verbatim>\<open>re.match(".*x003a.*", name)\<close> succeeds exactly when \<^verbatim>\<open>x003a\<close> occurs in the name with no
  newline before it.
\<close>

section \<open>Field filter\<close>

lemma columns_loop_not_dict:
  "py_get col ''name'' (JStr []) = Inl e \<Longrightarrow> columns_loop (col # rest) cols = Inl e"
  by simp

lemma columns_loop_not_str:
  assumes "py_get col ''name'' (JStr []) = Inr x" and "\<forall>nm. x \<noteq> JStr nm"
  shows "columns_loop (col # rest) cols = Inl TypeError"
proof (cases x)
  case (Atom a)
  then show ?thesis using assms by (cases a) auto
next
  case (JArr xs)
  then show ?thesis using assms by simp
next
  case (JObj m)
  then show ?thesis using assms by simp
qed

lemma columns_loop_ignored:
  "py_get col ''name'' (JStr []) = Inr (JStr nm) \<Longrightarrow>
   nm \<in> set COLUMNS_TO_IGNORE \<or> re_match COLUMN_PATTERN_TO_IGNORE nm \<Longrightarrow>
   columns_loop (col # rest) cols = columns_loop rest cols"
  by auto

lemma columns_loop_kept:
  assumes "py_get col ''name'' (JStr []) = Inr (JStr nm)"
    and "nm \<notin> set COLUMNS_TO_IGNORE" and "\<not> re_match COLUMN_PATTERN_TO_IGNORE nm"
  shows "\<exists>c. columns_loop (col # rest) cols = columns_loop rest (cols @ [c]) \<and>
             name c = nm \<and> get_column_type col = Inr (type_details c)"
proof -
  from assms(1) obtain m where col: "col = JObj m" by (cases col) auto
  obtain t where t: "get_column_type (JObj m) = Inr t"
    using get_column_type_total by blast
  show ?thesis using assms col t by auto
qed

declare columns_loop.simps(2) [simp del]

lemma columns_loop_names:
  "columns_loop raws cols = Inr cols' \<Longrightarrow>
   \<forall>c\<in>set cols. name c \<notin> set COLUMNS_TO_IGNORE \<and> \<not> re_match COLUMN_PATTERN_TO_IGNORE (name c) \<Longrightarrow>
   \<forall>c\<in>set cols'. name c \<notin> set COLUMNS_TO_IGNORE \<and> \<not> re_match COLUMN_PATTERN_TO_IGNORE (name c)"
proof (induction raws arbitrary: cols)
  case Nil
  then show ?case by simp
next
  case (Cons col raws)
  show ?case
  proof (cases "py_get col ''name'' (JStr [])")
    case (Inl e)
    from Cons.prems(1) show ?thesis unfolding columns_loop_not_dict [OF Inl] by simp
  next
    case (Inr x)
    show ?thesis
    proof (cases "\<exists>nm. x = JStr nm")
      case False
      then have ns: "\<forall>nm. x \<noteq> JStr nm" by blast
      from Cons.prems(1) show ?thesis unfolding columns_loop_not_str [OF Inr ns] by simp
    next
      case True
      then obtain nm where x: "x = JStr nm" by blast
      show ?thesis
      proof (cases "nm \<in> set COLUMNS_TO_IGNORE \<or> re_match COLUMN_PATTERN_TO_IGNORE nm")
        case True
        from Cons.prems(1) have "columns_loop raws cols = Inr cols'"
          unfolding columns_loop_ignored [OF Inr [unfolded x] True] .
        from Cons.IH [OF this Cons.prems(2)] show ?thesis .
      next
        case False
        then have a: "nm \<notin> set COLUMNS_TO_IGNORE" and b: "\<not> re_match COLUMN_PATTERN_TO_IGNORE nm"
          by simp_all
        from columns_loop_kept [OF Inr [unfolded x] a b, of raws cols] obtain c where
          step: "columns_loop (col # raws) cols = columns_loop raws (cols @ [c])" and c: "name c = nm"
          by blast
        from Cons.prems(1) have run: "columns_loop raws (cols @ [c]) = Inr cols'"
          unfolding step .
        have "\<forall>c\<in>set (cols @ [c]). name c \<notin> set COLUMNS_TO_IGNORE \<and>
                \<not> re_match COLUMN_PATTERN_TO_IGNORE (name c)"
          using Cons.prems(2) a b c by simp
        from Cons.IH [OF run this] show ?thesis .
      qed
    qed
  qed
qed

lemma fetch_columns_cases:
  "(\<exists>lg. fetch_columns src i = (lg @ [Failed_to_fetch_columns i], Inr [])) \<or>
   (\<exists>lg e. fetch_columns src i = (lg, Inl e)) \<or>
   (\<exists>raws. fetch_columns src i = ([], columns_loop raws []))"
proof (cases "src i")
  case None
  then show ?thesis by (simp add: fetch_columns_def fetch_data_def)
next
  case (Some body)
  show ?thesis
  proof (cases "truthy body")
    case False
    then show ?thesis using Some by (simp add: fetch_columns_def fetch_data_def)
  next
    case True
    show ?thesis
    proof (cases "py_in ''value'' body")
      case (Inl e)
      then show ?thesis using Some True by (simp add: fetch_columns_def fetch_data_def)
    next
      case (Inr b)
      show ?thesis
      proof (cases b)
        case False
        then show ?thesis using Some True Inr
          by (simp add: fetch_columns_def fetch_data_def)
      next
        case b: True
        show ?thesis
        proof (cases "py_getitem body ''value''")
          case (Inl e)
          then show ?thesis using Some True Inr b
            by (simp add: fetch_columns_def fetch_data_def)
        next
          case v: (Inr v)
          show ?thesis
          proof (cases "py_iter v")
            case (Inl e)
            then show ?thesis using Some True Inr b v
              by (simp add: fetch_columns_def fetch_data_def)
          next
            case raws: (Inr raws)
            have "fetch_columns src i = ([], columns_loop raws [])"
              using Some True Inr b v raws
              by (simp add: fetch_columns_def fetch_data_def)
            then show ?thesis by blast
          qed
        qed
      qed
    qed
  qed
qed

lemma columns_of_names:
  "\<forall>c\<in>set (columns_of src i).
     name c \<notin> set COLUMNS_TO_IGNORE \<and> \<not> re_match COLUMN_PATTERN_TO_IGNORE (name c)"
proof -
  from fetch_columns_cases [of src i]
  consider "columns_of src i = []"
    | raws where "snd (fetch_columns src i) = columns_loop raws []"
    by (auto simp: columns_of_def)
  then show ?thesis
  proof cases
    case 1
    then show ?thesis by simp
  next
    case 2
    show ?thesis
    proof (cases "columns_loop raws []")
      case (Inl e)
      then show ?thesis using 2 by (simp add: columns_of_def)
    next
      case (Inr cols)
      then have "columns_of src i = cols" using 2 by (simp add: columns_of_def)
      with columns_loop_names [OF Inr] show ?thesis by simp
    qed
  qed
qed

lemma tables_loop_fetch_ok:
  "tables_loop src d g rels lg = (lg', Inr r) \<Longrightarrow> (n, i) \<in> set d \<Longrightarrow>
   \<exists>cols. snd (fetch_columns src i) = Inr cols"
proof (induction d arbitrary: g rels lg)
  case Nil
  then show ?case by simp
next
  case (Cons p d)
  obtain n0 i0 where p: "p = (n0, i0)" by (cases p)
  obtain lg1 res where fc: "fetch_columns src i0 = (lg1, res)" by (cases "fetch_columns src i0")
  from Cons.prems(1) p fc obtain cols where res: "res = Inr cols"
    by (cases res) auto
  from Cons.prems(1) p fc res obtain label rels1 where
    rl: "rows_loop n0 cols (table_open n0) rels = Inr (label, rels1)"
    by (cases "rows_loop n0 cols (table_open n0) rels") auto
  from Cons.prems(1) p fc res rl have run:
    "tables_loop src d (g\<lparr>nodes := nodes g @ [(n0, label @ table_close)]\<rparr>) rels1
       (lg @ lg1 @ [Generating_table n0]) = (lg', Inr r)"
    by simp
  show ?case
  proof (cases "(n, i) = (n0, i0)")
    case True
    then show ?thesis using fc res by simp
  next
    case False
    with Cons.prems(2) p have "(n, i) \<in> set d" by auto
    from Cons.IH [OF run this] show ?thesis .
  qed
qed

lemma generate_uml_graph_fetch_ok:
  assumes "generate_uml_graph src d = (lg, Inr g)" and "(n, i) \<in> set d"
  shows "snd (fetch_columns src i) = Inr (columns_of src i)"
proof -
  from assms(1) obtain r where
    "tables_loop src d \<lparr>nodes = [], edges = []\<rparr> [] [] = (lg, Inr r)"
    by (auto simp: generate_uml_graph_def split: prod.splits sum.splits)
  from tables_loop_fetch_ok [OF this assms(2)] show ?thesis
    by (auto simp: columns_of_def)
qed

text \<open>
  C5. In the graph a run returns, the label of every node is the table of the columns
  \<^verbatim>\<open>fetch_columns\<close> returned for that list (header, one row per column, closing tag),
  and no column among them has a name in \<open>COLUMNS_TO_IGNORE\<close> or a name that
  \<open>COLUMN_PATTERN_TO_IGNORE\<close> matches: a field with such a name has no row in any label.
\<close>

theorem ignored_fields_have_no_row:
  assumes "generate_uml_graph src lists_dict = (lg, Inr g)"
    and "(list_name, label) \<in> set (nodes g)"
  shows "\<exists>list_id columns.
           (list_name, list_id) \<in> set lists_dict \<and>
           snd (fetch_columns src list_id) = Inr columns \<and>
           label = table_open list_name @ concat (map table_row columns) @ table_close \<and>
           (\<forall>c\<in>set columns.
              name c \<notin> set COLUMNS_TO_IGNORE \<and> \<not> re_match COLUMN_PATTERN_TO_IGNORE (name c))"
proof -
  from assms(2) obtain list_id where
    mem: "(list_name, list_id) \<in> set lists_dict" and
    label: "label = table_label list_name (columns_of src list_id)"
    unfolding generate_uml_graph_Inr(1) [OF assms(1)] by auto
  have "snd (fetch_columns src list_id) = Inr (columns_of src list_id)"
    by (rule generate_uml_graph_fetch_ok [OF assms(1) mem])
  with mem label columns_of_names [of src list_id] show ?thesis
    unfolding table_label_def by blast
qed

text \<open>
  The source returns the fields Title, ID and \<^verbatim>\<open>Author_x003a_Name\<close> for Customers; the label
  has the row of Title only.
\<close>

theorem ignored_fields_have_no_row_witness:
  "''ID'' \<in> set COLUMNS_TO_IGNORE \<and>
   re_match COLUMN_PATTERN_TO_IGNORE ''Author_x003a_Name'' \<and>
   map_sum id (\<lambda>g. nodes g ! 1) (snd (generate_uml_graph scenario_src scenario_dict)) =
     Inr (AStr ''Customers'',
          table_open (AStr ''Customers'') @
          table_row \<lparr>name = ''Title'', ident = JNone, required = JBool False,
                     type_details = \<lparr>type = ''text'', details = JObj fmempty\<rparr>\<rparr> @
          table_close) \<and>
   (\<exists>list_id columns.
      (AStr ''Customers'', list_id) \<in> set scenario_dict \<and>
      snd (fetch_columns scenario_src list_id) = Inr columns \<and>
      table_open (AStr ''Customers'') @
      table_row \<lparr>name = ''Title'', ident = JNone, required = JBool False,
                 type_details = \<lparr>type = ''text'', details = JObj fmempty\<rparr>\<rparr> @
      table_close
        = table_open (AStr ''Customers'') @ concat (map table_row columns) @ table_close \<and>
      (\<forall>c\<in>set columns.
         name c \<notin> set COLUMNS_TO_IGNORE \<and> \<not> re_match COLUMN_PATTERN_TO_IGNORE (name c)))"
proof -
  let ?label = "table_open (AStr ''Customers'') @
          table_row \<lparr>name = ''Title'', ident = JNone, required = JBool False,
                     type_details = \<lparr>type = ''text'', details = JObj fmempty\<rparr>\<rparr> @
          table_close"
  have a: "''ID'' \<in> set COLUMNS_TO_IGNORE" by (simp add: COLUMNS_TO_IGNORE_def)
  have b: "re_match COLUMN_PATTERN_TO_IGNORE ''Author_x003a_Name''" by code_simp
  have c: "map_sum id (\<lambda>g. nodes g ! 1) (snd (generate_uml_graph scenario_src scenario_dict)) =
     Inr (AStr ''Customers'', ?label)"
    by code_simp
  have len: "map_sum id (\<lambda>g. length (nodes g)) (snd (generate_uml_graph scenario_src scenario_dict))
     = Inr 3"
    by code_simp
  from c obtain lg g where gen: "generate_uml_graph scenario_src scenario_dict = (lg, Inr g)"
    and n1: "nodes g ! 1 = (AStr ''Customers'', ?label)"
    by (cases "generate_uml_graph scenario_src scenario_dict";
        cases "snd (generate_uml_graph scenario_src scenario_dict)") auto
  from len gen have "length (nodes g) = 3" by simp
  with n1 have mem: "(AStr ''Customers'', ?label) \<in> set (nodes g)"
    by (metis nth_mem one_less_numeral_iff semiring_norm(77))
  from ignored_fields_have_no_row [OF gen mem] a b c show ?thesis by blast
qed

section \<open>Malformed descriptors\<close>

lemma lists_loop_filter:
  "snd (lists_loop ig items d lg) = snd (lists_loop ig (filter list_item_ok items) d lg)"
proof (induction items arbitrary: d lg)
  case Nil
  show ?case by simp
next
  case (Cons item items)
  show ?case
  proof (cases "list_item_ok item")
    case False
    have "snd (lists_loop ig (item # items) d lg) =
            snd (lists_loop ig items d (lg @ [Unexpected_item item]))"
      using False by (simp add: lists_loop_malformed)
    also have "\<dots> = snd (lists_loop ig items d lg)" by (rule lists_loop_log_indep)
    also have "\<dots> = snd (lists_loop ig (filter list_item_ok items) d lg)" by (rule Cons.IH)
    finally show ?thesis using False by simp
  next
    case True
    then obtain m dn i where item: "item = JObj m" and dn: "fmlookup m ''displayName'' = Some dn"
      and i: "fmlookup m ''id'' = Some i"
      by (auto simp: list_item_ok_iff)
    have f: "filter list_item_ok (JObj m # items) = JObj m # filter list_item_ok items"
      using True item by simp
    show ?thesis
    proof (cases "in_names dn ig")
      case True
      show ?thesis unfolding item f lists_loop_ignored [OF dn i True] by (rule Cons.IH)
    next
      case False
      show ?thesis
      proof (cases "\<exists>k. dn = Atom k")
        case True
        then obtain k where k: "dn = Atom k" by blast
        show ?thesis
          unfolding item f lists_loop_retained [OF dn [unfolded k] i False [unfolded k]]
          by (rule Cons.IH)
      next
        case False
        then have na: "\<forall>k. dn \<noteq> Atom k" by blast
        show ?thesis
          unfolding item f lists_loop_unhashable [OF dn i \<open>\<not> in_names dn ig\<close> na] by simp
      qed
    qed
  qed
qed

lemma lists_loop_log:
  "lists_loop ig items d lg = (lg', Inr d') \<Longrightarrow>
   lg' = lg @ map Unexpected_item (filter (\<lambda>x. \<not> list_item_ok x) items)"
proof (induction items arbitrary: d lg)
  case Nil
  then show ?case by simp
next
  case (Cons item items)
  show ?case
  proof (cases "list_item_ok item")
    case False
    with Cons.prems have "lists_loop ig items d (lg @ [Unexpected_item item]) = (lg', Inr d')"
      by (simp add: lists_loop_malformed)
    from Cons.IH [OF this] False show ?thesis by simp
  next
    case True
    then obtain m dn i where item: "item = JObj m" and dn: "fmlookup m ''displayName'' = Some dn"
      and i: "fmlookup m ''id'' = Some i"
      by (auto simp: list_item_ok_iff)
    show ?thesis
    proof (cases "in_names dn ig")
      case True
      from Cons.prems have "lists_loop ig items d lg = (lg', Inr d')"
        unfolding item lists_loop_ignored [OF dn i True] .
      from Cons.IH [OF this] \<open>list_item_ok item\<close> show ?thesis by simp
    next
      case False
      show ?thesis
      proof (cases "\<exists>k. dn = Atom k")
        case True
        then obtain k where k: "dn = Atom k" by blast
        from Cons.prems have "lists_loop ig items (dict_set d k i) lg = (lg', Inr d')"
          unfolding item lists_loop_retained [OF dn [unfolded k] i False [unfolded k]] .
        from Cons.IH [OF this] \<open>list_item_ok item\<close> show ?thesis by simp
      next
        case False
        then have na: "\<forall>k. dn \<noteq> Atom k" by blast
        from Cons.prems show ?thesis
          unfolding item lists_loop_unhashable [OF dn i \<open>\<not> in_names dn ig\<close> na] by simp
      qed
    qed
  qed
qed

lemma dict_set_entries:
  "(a, b) \<in> set (dict_set d k v) \<Longrightarrow> (a, b) \<in> set d \<or> (atom_eq a k \<and> b = v)"
proof (induction d)
  case Nil
  then show ?case by simp
next
  case (Cons p d)
  obtain k0 w where p: "p = (k0, w)" by (cases p)
  show ?case using Cons p by (auto split: if_splits)
qed

lemma lists_loop_entries:
  "lists_loop ig items d lg = (lg', Inr d') \<Longrightarrow> (a, b) \<in> set d' \<Longrightarrow>
   (a, b) \<in> set d \<or>
   (\<exists>m k. JObj m \<in> set items \<and> fmlookup m ''displayName'' = Some (Atom k) \<and> atom_eq a k \<and>
          fmlookup m ''id'' = Some b)"
proof (induction items arbitrary: d lg)
  case Nil
  then show ?case by simp
next
  case (Cons item items)
  show ?case
  proof (cases "list_item_ok item")
    case False
    with Cons.prems(1) have "lists_loop ig items d (lg @ [Unexpected_item item]) = (lg', Inr d')"
      by (simp add: lists_loop_malformed)
    from Cons.IH [OF this Cons.prems(2)] show ?thesis by auto
  next
    case True
    then obtain m dn i where item: "item = JObj m" and dn: "fmlookup m ''displayName'' = Some dn"
      and i: "fmlookup m ''id'' = Some i"
      by (auto simp: list_item_ok_iff)
    show ?thesis
    proof (cases "in_names dn ig")
      case True
      from Cons.prems(1) have "lists_loop ig items d lg = (lg', Inr d')"
        unfolding item lists_loop_ignored [OF dn i True] .
      from Cons.IH [OF this Cons.prems(2)] show ?thesis by auto
    next
      case False
      show ?thesis
      proof (cases "\<exists>k. dn = Atom k")
        case True
        then obtain k where k: "dn = Atom k" by blast
        from Cons.prems(1) have "lists_loop ig items (dict_set d k i) lg = (lg', Inr d')"
          unfolding item lists_loop_retained [OF dn [unfolded k] i False [unfolded k]] .
        from Cons.IH [OF this Cons.prems(2)]
        consider "(a, b) \<in> set (dict_set d k i)"
          | "\<exists>m k. JObj m \<in> set items \<and> fmlookup m ''displayName'' = Some (Atom k) \<and>
                atom_eq a k \<and> fmlookup m ''id'' = Some b"
          by blast
        then show ?thesis
        proof cases
          case 1
          from dict_set_entries [OF 1] show ?thesis
          proof
            assume "(a, b) \<in> set d"
            then show ?thesis by simp
          next
            assume "atom_eq a k \<and> b = i"
            then have "JObj m \<in> set (item # items) \<and> fmlookup m ''displayName'' = Some (Atom k) \<and>
                atom_eq a k \<and> fmlookup m ''id'' = Some b"
              using item dn k i by simp
            then show ?thesis by blast
          qed
        next
          case 2
          then show ?thesis by auto
        qed
      next
        case False
        then have na: "\<forall>k. dn \<noteq> Atom k" by blast
        from Cons.prems(1) show ?thesis
          unfolding item lists_loop_unhashable [OF dn i \<open>\<not> in_names dn ig\<close> na] by simp
      qed
    qed
  qed
qed

lemma fetch_columns_log:
  "set (fst (fetch_columns src i)) \<subseteq> {Request_failed, Failed_to_fetch_columns i}"
proof -
  from fetch_columns_cases [of src i]
  consider lg where "fetch_columns src i = (lg @ [Failed_to_fetch_columns i], Inr [])"
    | lg e where "fetch_columns src i = (lg, Inl e)"
    | raws where "fetch_columns src i = ([], columns_loop raws [])"
    by blast
  then show ?thesis
  proof cases
    case 3
    then show ?thesis by simp
  qed (auto simp: fetch_columns_def fetch_data_def
        split: option.splits if_splits sum.splits bool.splits)
qed

lemma empty_name_kept:
  "[] \<notin> set COLUMNS_TO_IGNORE" "\<not> re_match COLUMN_PATTERN_TO_IGNORE []"
  by (simp_all add: COLUMNS_TO_IGNORE_def COLUMN_PATTERN_TO_IGNORE_def)

text \<open>
  C6, as stated, fails for fields. The source returns one field descriptor, a dict with
  the key \<^verbatim>\<open>text\<close> and no key \<^verbatim>\<open>name\<close>: \<^verbatim>\<open>col.get("name", "")\<close> gives the empty name, which is
  not ignored, so the field enters the field list; nothing is logged.
\<close>

theorem nameless_field_counterexample:
  "fmlookup (fmap_of_list [(''text'', JObj fmempty)]) ''name'' = None \<and>
   fetch_columns nameless_src (JStr ''L1'') =
     ([], Inr [\<lparr>name = [], ident = JNone, required = JBool False,
                type_details = \<lparr>type = ''text'', details = JObj fmempty\<rparr>\<rparr>])"
  by code_simp

text \<open>
  C6, amended. Collections: when the collection listing holds the array \<open>items\<close>, the
  items that are not a dict with both keys \<^verbatim>\<open>displayName\<close> and \<^verbatim>\<open>id\<close> do not change the
  result (it is the result for the listing without them, so they cannot make the fetch
  fail); when the fetch returns, it has logged one warning for each such item, in order,
  and every entry of the map has the id of an item with both keys and an equal display
  name. Fields: a field descriptor (a dict) without the key \<^verbatim>\<open>name\<close> is kept, under the
  empty name, with its classification; and \<^verbatim>\<open>fetch_columns\<close> never logs a warning.
\<close>

theorem malformed_descriptors:
  "(fmlookup body ''value'' = Some (JArr items) \<longrightarrow>
      snd (fetch_sharepoint_lists ig (Some (JObj body))) =
        snd (fetch_sharepoint_lists ig
               (Some (JObj (fmupd ''value'' (JArr (filter list_item_ok items)) body)))) \<and>
      (\<forall>lg d. fetch_sharepoint_lists ig (Some (JObj body)) = (lg, Inr d) \<longrightarrow>
         lg = map Unexpected_item (filter (\<lambda>x. \<not> list_item_ok x) items) \<and>
         (\<forall>(k, v)\<in>set d. \<exists>m k'. JObj m \<in> set items \<and>
             fmlookup m ''displayName'' = Some (Atom k') \<and> atom_eq k k' \<and>
             fmlookup m ''id'' = Some v))) \<and>
   (fmlookup field ''name'' = None \<longrightarrow>
      (\<exists>c. columns_loop (JObj field # rest) columns = columns_loop rest (columns @ [c]) \<and>
           name c = [] \<and> get_column_type (JObj field) = Inr (type_details c))) \<and>
   set (fst (fetch_columns src list_id)) \<subseteq> {Request_failed, Failed_to_fetch_columns list_id}"
proof (intro conjI impI allI)
  assume v: "fmlookup body ''value'' = Some (JArr items)"
  have v': "fmlookup (fmupd ''value'' (JArr (filter list_item_ok items)) body) ''value''
              = Some (JArr (filter list_item_ok items))"
    by simp
  show "snd (fetch_sharepoint_lists ig (Some (JObj body))) =
        snd (fetch_sharepoint_lists ig
               (Some (JObj (fmupd ''value'' (JArr (filter list_item_ok items)) body))))"
    unfolding fetch_sharepoint_lists_array [OF v] fetch_sharepoint_lists_array [OF v']
    by (rule lists_loop_filter)
next
  fix lg d
  assume v: "fmlookup body ''value'' = Some (JArr items)"
    and run: "fetch_sharepoint_lists ig (Some (JObj body)) = (lg, Inr d)"
  from run have loop: "lists_loop ig items [] [] = (lg, Inr d)"
    unfolding fetch_sharepoint_lists_array [OF v] .
  from lists_loop_log [OF loop]
  show "lg = map Unexpected_item (filter (\<lambda>x. \<not> list_item_ok x) items)" by simp
  show "\<forall>(k, v)\<in>set d. \<exists>m k'. JObj m \<in> set items \<and>
             fmlookup m ''displayName'' = Some (Atom k') \<and> atom_eq k k' \<and>
             fmlookup m ''id'' = Some v"
    using lists_loop_entries [OF loop] by fastforce
next
  assume "fmlookup field ''name'' = None"
  then have "py_get (JObj field) ''name'' (JStr []) = Inr (JStr [])" by simp
  from columns_loop_kept [OF this empty_name_kept]
  show "\<exists>c. columns_loop (JObj field # rest) columns = columns_loop rest (columns @ [c]) \<and>
           name c = [] \<and> get_column_type (JObj field) = Inr (type_details c)" .
next
  show "set (fst (fetch_columns src list_id)) \<subseteq> {Request_failed, Failed_to_fetch_columns list_id}"
    by (rule fetch_columns_log)
qed

theorem malformed_descriptors_witness:
  "fetch_sharepoint_lists LISTS_TO_IGNORE_app (Some (payload broken_items)) =
     ([Unexpected_item (JStr ''junk''),
       Unexpected_item (JObj (fmap_of_list [(''displayName'', JStr ''Broken'')]))],
      Inr [(AStr ''Tasks'', JStr ''T1'')]) \<and>
   filter list_item_ok broken_items = [list_item ''Tasks'' ''T1''] \<and>
   snd (fetch_sharepoint_lists LISTS_TO_IGNORE_app (Some (payload broken_items))) =
     snd (fetch_sharepoint_lists LISTS_TO_IGNORE_app
            (Some (JObj (fmupd ''value'' (JArr (filter list_item_ok broken_items))
                           (fmap_of_list [(''value'', JArr broken_items)]))))) \<and>
   (\<exists>c. columns_loop [JObj (fmap_of_list [(''text'', JObj fmempty)])] [] = columns_loop [] [c] \<and>
        name c = [] \<and>
        get_column_type (JObj (fmap_of_list [(''text'', JObj fmempty)])) = Inr (type_details c))"
proof -
  have run: "fetch_sharepoint_lists LISTS_TO_IGNORE_app (Some (payload broken_items)) =
     ([Unexpected_item (JStr ''junk''),
       Unexpected_item (JObj (fmap_of_list [(''displayName'', JStr ''Broken'')]))],
      Inr [(AStr ''Tasks'', JStr ''T1'')])"
    by code_simp
  have flt: "filter list_item_ok broken_items = [list_item ''Tasks'' ''T1'']"
    by code_simp
  have v: "fmlookup (fmap_of_list [(''value'', JArr broken_items)]) ''value''
             = Some (JArr broken_items)"
    by simp
  have n: "fmlookup (fmap_of_list [(''text'', JObj fmempty)]) ''name'' = None"
    by simp
  note w = malformed_descriptors [of "fmap_of_list [(''value'', JArr broken_items)]" broken_items
      LISTS_TO_IGNORE_app "fmap_of_list [(''text'', JObj fmempty)]" "[]" "[]"]
  from w v have a: "snd (fetch_sharepoint_lists LISTS_TO_IGNORE_app
        (Some (JObj (fmap_of_list [(''value'', JArr broken_items)])))) =
     snd (fetch_sharepoint_lists LISTS_TO_IGNORE_app
            (Some (JObj (fmupd ''value'' (JArr (filter list_item_ok broken_items))
                           (fmap_of_list [(''value'', JArr broken_items)])))))"
    by blast
  from w n have b: "\<exists>c. columns_loop [JObj (fmap_of_list [(''text'', JObj fmempty)])] [] =
        columns_loop [] ([] @ [c]) \<and> name c = [] \<and>
        get_column_type (JObj (fmap_of_list [(''text'', JObj fmempty)])) = Inr (type_details c)"
    by blast
  show ?thesis using run flt a b by (simp add: payload_def)
qed

section \<open>A field listing that fails\<close>

lemma fetch_columns_request_failed:
  "src i = None \<Longrightarrow>
   fetch_columns src i = ([Request_failed, Failed_to_fetch_columns i], Inr [])"
  by (simp add: fetch_columns_def fetch_data_def)

lemma fetch_columns_no_value:
  "src i = Some (JObj m) \<Longrightarrow> ''value'' |\<notin>| fmdom m \<Longrightarrow>
   fetch_columns src i = ([Failed_to_fetch_columns i], Inr [])"
  by (simp add: fetch_columns_def fetch_data_def)






lemma array_not_unusable:
  assumes "src i = Some (JObj m)" and "fmlookup m ''value'' = Some (JArr raws)"
  shows "\<not> listing_unusable (src i)"
proof -
  have "m \<noteq> fmempty" using assms(2) by auto
  moreover have "''value'' |\<in>| fmdom m" using assms(2) by (simp add: fmlookup_dom_iff)
  ultimately show ?thesis using assms(1) by (simp add: listing_unusable_def)
qed








end
